theory Spec2Isabelle
  imports Main "HOL-Library.AList" "HOL-Library.Word"
begin

unbundle bit_operations_syntax

section \<open>The package loader of \<^verbatim>\<open>SC.Package\<close>: data model\<close>

text \<open>
  The JavaScript values that reach the loader as callback targets, methods and
  arguments. Only their truthiness, \<^verbatim>\<open>SC.none\<close> and
  \<^verbatim>\<open>SC.typeOf(v) === SC.T_FUNCTION\<close> are inspected by the loader.
\<close>

datatype jsval =
    Undefined
  | Null
  | JBool bool
  | JNum int
  | JStr string
  | JFun nat
  | JObj nat

fun truthy :: "jsval \<Rightarrow> bool" where
  "truthy Undefined = False"
| "truthy Null = False"
| "truthy (JBool b) = b"
| "truthy (JNum n) = (n \<noteq> 0)"
| "truthy (JStr s) = (s \<noteq> [])"
| "truthy (JFun f) = True"
| "truthy (JObj x) = True"

fun none :: "jsval \<Rightarrow> bool" where
  "none Undefined = True"
| "none Null = True"
| "none v = False"

fun is_function :: "jsval \<Rightarrow> bool" where
  "is_function (JFun f) = True"
| "is_function v = False"

text \<open>
  The closure \<^verbatim>\<open>cb\<close> built by \<^verbatim>\<open>registerCallbackForPackage\<close>: calling it
  applies \<^verbatim>\<open>method\<close> to \<^verbatim>\<open>target\<close> with \<^verbatim>\<open>args\<close>.
\<close>

datatype callback = Callback (cb_target: jsval) (cb_method: jsval) (cb_args: "jsval list")

datatype level = INFO | WARN

text \<open>
  What the loader does to its collaborators, in the order it does it: a line handed to
  \<^verbatim>\<open>SC.Logger\<close> (level, call site, package name), a code string handed to the
  execution sink, a callback that is called, a script element appended for a URL.
\<close>

datatype event =
    Logged level string string
  | Exec string
  | Invoked callback
  | Fetch string string

datatype error =
    IsLoadedNotFound string
  | DependencyNotFound string string
  | DependentNotFound string string
  | TypeError string

datatype 'a result = Return 'a | Throw error | OutOfFuel

text \<open>
  What \<^verbatim>\<open>SC.typeOf\<close> says of a value that the loader takes for a package: a
  hash, or something else; for the latter, the string that the value turns into when it
  is used as a property name.
\<close>

datatype jstype = T_HASH | T_OTHER string

text \<open>
  One value that \<^verbatim>\<open>packages[name]\<close> can find. It is a record of
  \<^verbatim>\<open>SC.PACKAGE_MANIFEST\<close>, which is a hash, or it is a property that the
  manifest object inherits from \<^verbatim>\<open>Object.prototype\<close>, such as the functions
  \<^verbatim>\<open>toString\<close> and \<^verbatim>\<open>constructor\<close>: the code does not tell the two
  apart, and reads and assigns the same properties on either. A property that the code
  deletes or that may be missing is an \<open>option\<close>; a flag that is only ever tested for
  truthiness is a \<open>bool\<close> (missing reads as \<open>False\<close>); a missing
  \<^verbatim>\<open>rootNode\<close> or \<^verbatim>\<open>basename\<close> is the empty string, which is what
  \<^verbatim>\<open>join\<close> makes of it. The \<^verbatim>\<open>source\<close> object keeps its keys in insertion
  order.
\<close>

record package =
  typeOf :: jstype
  rootNode :: string
  basename :: string
  dependencies :: "string list option"
  dependents :: "string list option"
  source :: "(string \<times> string) list option"
  callbacks :: "callback list option"
  isLoading :: bool
  isLoaded :: bool
  isReady :: bool
  isExecuted :: bool
  didFailToEvaluate :: bool
  doNotExecute :: bool
  failedDependencies :: "string list option"

text \<open>
  The state of the loader. The list \<open>manifest\<close> holds what \<^verbatim>\<open>packages[name]\<close>
  finds, in the order in which the property lookup finds it: the records of
  \<^verbatim>\<open>SC.PACKAGE_MANIFEST\<close> first, then the properties that the object inherits.
\<close>

record state =
  manifest :: "(string \<times> package) list"
  trace :: "event list"

text \<open>
  The surroundings of the loader: the \<^verbatim>\<open>log\<close> property
  (\<^verbatim>\<open>SC.DEBUG_PACKAGES\<close>), the global \<^verbatim>\<open>SC.PACKAGE_MODE\<close>, and the behaviour of
  the code that the loader runs but does not own: whether a code string raises in the
  execution sink, and whether a callback raises, each given everything that happened
  before.

  Executed code and callbacks are taken as opaque: here they have no way to call back
  into the loader. In the code they have. A callback that calls \<^verbatim>\<open>loadPackage\<close> or
  \<^verbatim>\<open>registerCallbackForPackage\<close> for its own package while
  \<^verbatim>\<open>_sc_invokeCallbacksForPackage\<close> walks the queue pushes onto the very array that
  is being walked, whose length is read at every turn and which is deleted from the
  record only after the loop; and a nested \<^verbatim>\<open>loadPackage\<close> on an executed package
  walks that array again from its start. Whatever is proved below about the calls of
  callbacks is about callbacks that do not call back.
\<close>

record env =
  log :: bool
  PACKAGE_MODE :: "32 word"
  sink_throws :: "event list \<Rightarrow> string \<Rightarrow> bool"
  cb_throws :: "event list \<Rightarrow> callback \<Rightarrow> bool"

definition PACKAGE_MODE_MODELS :: "32 word" where
  "PACKAGE_MODE_MODELS = 0x01"

definition PACKAGE_MODE_VIEWS :: "32 word" where
  "PACKAGE_MODE_VIEWS = 0x02"

definition PACKAGE_MODE_CONTROLLERS :: "32 word" where
  "PACKAGE_MODE_CONTROLLERS = 0x04"

definition PACKAGE_MODE_OTHER :: "32 word" where
  "PACKAGE_MODE_OTHER = 0x08"

definition PACKAGE_MODE_NORMAL :: "32 word" where
  "PACKAGE_MODE_NORMAL = 0x10"

section \<open>Access to the manifest and the collaborators\<close>

definition lookup :: "state \<Rightarrow> string \<Rightarrow> package option" where
  "lookup s name = map_of (manifest s) name"

text \<open>An assignment to a property of the record stored under \<open>name\<close>.\<close>

definition modify :: "string \<Rightarrow> (package \<Rightarrow> package) \<Rightarrow> state \<Rightarrow> state" where
  "modify name f s =
     (case lookup s name of
        None \<Rightarrow> s
      | Some p \<Rightarrow> s\<lparr>manifest := AList.update name (f p) (manifest s)\<rparr>)"

definition emit :: "event \<Rightarrow> state \<Rightarrow> state" where
  "emit ev s = s\<lparr>trace := trace s @ [ev]\<rparr>"

definition warn :: "string \<Rightarrow> string \<Rightarrow> state \<Rightarrow> state" where
  "warn site name s = emit (Logged WARN site name) s"

text \<open>The lines written only under \<^verbatim>\<open>if (log)\<close>.\<close>

definition log_info :: "env \<Rightarrow> string \<Rightarrow> string \<Rightarrow> state \<Rightarrow> state" where
  "log_info e site name s = (if log e then emit (Logged INFO site name) s else s)"

definition log_warn :: "env \<Rightarrow> string \<Rightarrow> string \<Rightarrow> state \<Rightarrow> state" where
  "log_warn e site name s = (if log e then emit (Logged WARN site name) s else s)"

section \<open>The operations of \<^verbatim>\<open>SC.Package\<close>\<close>

text \<open>
  \<^verbatim>\<open>isLoaded\<close> takes a package name or the package itself. An argument that is
  a hash is the package; anything else is used as a property name of the manifest.
\<close>

datatype pkgref = ByName string | ByValue package

definition isLoaded_fn :: "pkgref \<Rightarrow> state \<Rightarrow> bool result" where
  "isLoaded_fn r s =
     (let found =
            (case r of
               ByName name \<Rightarrow> (name, lookup s name)
             | ByValue p \<Rightarrow>
                 (case typeOf p of
                    T_HASH \<Rightarrow> ([], Some p)
                  | T_OTHER key \<Rightarrow> (key, lookup s key)))
      in case found of
           (name, None) \<Rightarrow> Throw (IsLoadedNotFound name)
         | (name, Some p) \<Rightarrow> Return (isLoaded p))"

text \<open>
  The middle of \<^verbatim>\<open>registerCallbackForPackage\<close>: the early exits, the
  normalisation of \<^verbatim>\<open>target\<close> and \<^verbatim>\<open>method\<close>, and the closure that is built
  (\<open>None\<close> when the function returns without building one). The argument array is
  taken by value, as \<^verbatim>\<open>loadPackage\<close> passes it (a fresh slice of its arguments at
  every call); the code unshifts into the array it is given, so that a caller of
  \<^verbatim>\<open>registerCallbackForPackage\<close> who passes one array twice makes two closures
  that share it.
\<close>

definition make_callback :: "string \<Rightarrow> jsval \<Rightarrow> jsval \<Rightarrow> jsval list \<Rightarrow> callback option" where
  "make_callback packageName target method args =
     (if none target \<and> none method then None
      else
        let (target', method', args') =
              (if truthy target then
                 (if is_function target then
                    (Null, target, (if \<not> none method then method # args else args))
                  else (target, method, args))
               else (Null, method, args))
        in
          if \<not> truthy method' \<or> \<not> is_function method' then None
          else Some (Callback target' method' (JStr packageName # args')))"

definition registerCallbackForPackage ::
  "env \<Rightarrow> string \<Rightarrow> jsval \<Rightarrow> jsval \<Rightarrow> jsval list \<Rightarrow> state \<Rightarrow> state" where
  "registerCallbackForPackage e packageName target method args s =
     (case lookup s packageName of
        None \<Rightarrow> log_warn e ''registerCallbackForPackage: could not find package'' packageName s
      | Some p \<Rightarrow>
          (case make_callback packageName target method args of
             None \<Rightarrow> s
           | Some cb \<Rightarrow>
               modify packageName
                 (\<lambda>p. p\<lparr>callbacks :=
                    Some ((case callbacks p of None \<Rightarrow> [] | Some cbs \<Rightarrow> cbs) @ [cb])\<rparr>) s))"

text \<open>
  One turn of the loop of \<^verbatim>\<open>_sc_invokeCallbacksForPackage\<close>: the callback is
  called inside \<^verbatim>\<open>try\<close>, and the handler only logs. The callback is opaque: the
  call is recorded and may raise, and the manifest is as it was. The loop is therefore a
  walk over the queue as it is when the loop starts.
\<close>

definition invokeCallback :: "env \<Rightarrow> string \<Rightarrow> callback \<Rightarrow> state \<Rightarrow> state" where
  "invokeCallback e packageName cb s =
     (let s1 = emit (Invoked cb) s in
        if cb_throws e (trace s) cb
        then warn ''_sc_packageDidExecute: error when attempting to execute package callback''
               packageName s1
        else s1)"

fun invokeCallbacks_loop :: "env \<Rightarrow> string \<Rightarrow> callback list \<Rightarrow> state \<Rightarrow> state" where
  "invokeCallbacks_loop e packageName [] s = s"
| "invokeCallbacks_loop e packageName (cb # cbs) s =
     invokeCallbacks_loop e packageName cbs (invokeCallback e packageName cb s)"

definition sc_invokeCallbacksForPackage :: "env \<Rightarrow> string \<Rightarrow> state \<Rightarrow> unit result \<times> state" where
  "sc_invokeCallbacksForPackage e packageName s =
     (case lookup s packageName of
        None \<Rightarrow> (Throw (TypeError ''package is undefined''), s)
      | Some p \<Rightarrow>
          let cbs = (case callbacks p of None \<Rightarrow> [] | Some cbs \<Rightarrow> cbs);
              s1 = invokeCallbacks_loop e packageName cbs s
          in (Return (), modify packageName (\<lambda>p. p\<lparr>callbacks := None\<rparr>) s1))"

text \<open>
  The loop of \<^verbatim>\<open>_sc_dependenciesMetForPackage\<close> over the dependencies that are
  left, with the local \<^verbatim>\<open>isReady\<close>. A dependency missing from the manifest throws,
  after the assignments already made.
\<close>

fun dependenciesMet_loop ::
  "string \<Rightarrow> string list \<Rightarrow> bool \<Rightarrow> state \<Rightarrow> bool result \<times> state" where
  "dependenciesMet_loop packageName [] ready s = (Return ready, s)"
| "dependenciesMet_loop packageName (d # ds) ready s =
     (case lookup s d of
        None \<Rightarrow> (Throw (DependencyNotFound packageName d), s)
      | Some dependency \<Rightarrow>
          if \<not> isExecuted dependency
          then dependenciesMet_loop packageName ds False
                 (modify packageName (\<lambda>p. p\<lparr>isReady := False\<rparr>) s)
          else dependenciesMet_loop packageName ds ready s)"

definition sc_dependenciesMetForPackage ::
  "env \<Rightarrow> string \<Rightarrow> state \<Rightarrow> bool result \<times> state" where
  "sc_dependenciesMetForPackage e packageName s0 =
     (let s = log_info e ''_sc_dependenciesMetForPackage'' packageName s0 in
      case lookup s packageName of
        None \<Rightarrow>
          (Return False,
           log_warn e ''_sc_dependenciesMetForPackage: could not find package'' packageName s)
      | Some p \<Rightarrow>
          (case dependencies p of
             None \<Rightarrow>
               (Return True,
                modify packageName (\<lambda>p. p\<lparr>isReady := True\<rparr>)
                  (log_info e ''_sc_dependenciesMetForPackage: no dependencies found''
                     packageName s))
           | Some [] \<Rightarrow>
               (Return True,
                modify packageName (\<lambda>p. p\<lparr>isReady := True\<rparr>)
                  (log_info e ''_sc_dependenciesMetForPackage: no dependencies found''
                     packageName s))
           | Some ds \<Rightarrow>
               (case dependenciesMet_loop packageName ds True s of
                  (Return ready, s1) \<Rightarrow>
                    if ready then
                      (Return True,
                       modify packageName (\<lambda>p. p\<lparr>dependencies := None, isReady := True\<rparr>)
                         (log_info e ''_sc_dependenciesMetForPackage: package is ready''
                            packageName s1))
                    else
                      (Return False,
                       log_info e ''_sc_dependenciesMetForPackage: some dependencies not executed''
                         packageName s1)
                | (r, s1) \<Rightarrow> (r, s1))))"

definition sc_urlForPackage :: "env \<Rightarrow> string \<Rightarrow> state \<Rightarrow> string option \<times> state" where
  "sc_urlForPackage e packageName s =
     (case lookup s packageName of
        None \<Rightarrow>
          (None, log_warn e ''_sc_urlForPackage: could not find package'' packageName s)
      | Some p \<Rightarrow> (Some (''/'' @ rootNode p @ ''/packages/'' @ basename p), s))"

text \<open>
  \<^verbatim>\<open>loadJavaScript\<close> appends the script element; its \<^verbatim>\<open>onload\<close> handler, which
  calls \<^verbatim>\<open>_sc_packageDidLoad\<close>, runs later and is a separate step.
\<close>

definition loadJavaScript :: "env \<Rightarrow> string \<Rightarrow> state \<Rightarrow> state" where
  "loadJavaScript e packageName s0 =
     (case sc_urlForPackage e packageName s0 of (url, s) \<Rightarrow>
        (case lookup s packageName of
           None \<Rightarrow> log_warn e ''loadJavaScript: could not find package'' packageName s
         | Some p \<Rightarrow>
             if isLoaded p
             then log_warn e ''loadJavaScript: package already loaded'' packageName s
             else emit (Fetch (case url of None \<Rightarrow> [] | Some u \<Rightarrow> u) packageName)
                    (modify packageName (\<lambda>p. p\<lparr>isLoading := True\<rparr>) s)))"

text \<open>The list \<^verbatim>\<open>parts\<close> chosen from the mode flags.\<close>

definition flag_set :: "32 word \<Rightarrow> 32 word \<Rightarrow> bool" where
  "flag_set flags m = (flags AND m \<noteq> 0)"

definition parts_for :: "32 word \<Rightarrow> string list" where
  "parts_for flags =
     (if flag_set flags PACKAGE_MODE_NORMAL
      then [''other'', ''models'', ''controllers'', ''views'']
      else (if flag_set flags PACKAGE_MODE_OTHER then [''other''] else [])
         @ (if flag_set flags PACKAGE_MODE_MODELS then [''models''] else [])
         @ (if flag_set flags PACKAGE_MODE_CONTROLLERS then [''controllers''] else [])
         @ (if flag_set flags PACKAGE_MODE_VIEWS then [''views''] else []))"

text \<open>
  The loop that builds \<^verbatim>\<open>code\<close>: a part with a truthy payload is appended, after a
  \<^verbatim>\<open>;\<close> when code is already there, and deleted from the source object.
\<close>

fun accumulate ::
  "string list \<Rightarrow> string \<Rightarrow> (string \<times> string) list \<Rightarrow> string \<times> (string \<times> string) list" where
  "accumulate [] code src = (code, src)"
| "accumulate (part # parts) code src =
     (case map_of src part of
        None \<Rightarrow> accumulate parts code src
      | Some c \<Rightarrow>
          if c \<noteq> []
          then accumulate parts ((if code \<noteq> [] then code @ '';'' else code) @ c)
                 (AList.delete part src)
          else accumulate parts code src)"

text \<open>
  \<^verbatim>\<open>_sc_evaluateJavaScriptForPackage\<close> up to the end of its \<^verbatim>\<open>try\<close>/\<^verbatim>\<open>catch\<close>:
  the result says whether the function goes on to \<^verbatim>\<open>_sc_packageDidExecute\<close>.
\<close>

definition evaluate_source :: "env \<Rightarrow> string \<Rightarrow> state \<Rightarrow> bool \<times> state" where
  "evaluate_source e packageName s0 =
     (let s = log_info e ''_sc_evaluateJavaScriptForPackage'' packageName s0 in
      case lookup s packageName of
        None \<Rightarrow>
          (False,
           log_warn e ''_sc_evaluateJavaScriptForPackage: could not find package'' packageName s)
      | Some p \<Rightarrow>
          if isExecuted p
          then (False,
                warn ''_sc_evaluateJavaScriptForPackage: package already executed'' packageName s)
          else
            (case source p of
               None \<Rightarrow>
                 (False,
                  warn ''_sc_evaluateJavaScriptForPackage: no source on requested package''
                    packageName s)
             | Some src \<Rightarrow>
                 (case accumulate (parts_for (PACKAGE_MODE e)) [] src of (code, src') \<Rightarrow>
                    let s1 = modify packageName (\<lambda>p. p\<lparr>source := Some src'\<rparr>) s in
                      if code \<noteq> [] then
                        (let s2 = emit (Exec code) s1 in
                           if sink_throws e (trace s1) code
                           then (True,
                                 modify packageName
                                   (\<lambda>p. p\<lparr>isExecuted := False, didFailToEvaluate := True\<rparr>)
                                   (log_info e code packageName
                                      (warn ''Caught error when processing package source''
                                         packageName s2)))
                           else (True, s2))
                      else
                        (False,
                         log_warn e ''_sc_evaluateJavaScriptForPackage: no package source found''
                           packageName
                           (modify packageName (\<lambda>p. p\<lparr>isExecuted := False\<rparr>) s1)))))"

text \<open>
  \<^verbatim>\<open>_sc_packageDidExecute\<close> up to its loop: the executed flag, the callbacks, and
  the list of dependents to walk (with \<^verbatim>\<open>didFail\<close>), if there is one.
\<close>

definition didExecute_head ::
  "env \<Rightarrow> string \<Rightarrow> state \<Rightarrow> (bool \<times> string list) option \<times> state" where
  "didExecute_head e packageName s0 =
     (let s = log_info e ''_sc_packageDidExecute'' packageName s0 in
      case lookup s packageName of
        None \<Rightarrow> (None, warn ''_sc_packageDidExecute: unknown package reporting'' packageName s)
      | Some p \<Rightarrow>
          let didFail = didFailToEvaluate p;
              s1 = (if \<not> didFail then modify packageName (\<lambda>p. p\<lparr>isExecuted := True\<rparr>) s
                    else s);
              s2 = snd (sc_invokeCallbacksForPackage e packageName s1)
          in (case dependents p of
                None \<Rightarrow> (None, s2)
              | Some [] \<Rightarrow> (None, s2)
              | Some ds \<Rightarrow> (Some (didFail, ds), s2)))"

text \<open>
  \<^verbatim>\<open>loadPackage\<close> up to the point where it either returns or hands the package
  to \<^verbatim>\<open>_sc_evaluateJavaScriptForPackage\<close> (and then returns \<^verbatim>\<open>true\<close>).
\<close>

datatype load_next = Finish "bool result" | Evaluate

definition loadPackage_head ::
  "env \<Rightarrow> string \<Rightarrow> jsval \<Rightarrow> jsval \<Rightarrow> jsval list \<Rightarrow> state \<Rightarrow> load_next \<times> state" where
  "loadPackage_head e packageName target method args s0 =
     (let s = log_info e ''loadPackage'' packageName s0 in
      case lookup s packageName of
        None \<Rightarrow>
          (Finish (Return False), warn ''loadPackage: could not find package'' packageName s)
      | Some p \<Rightarrow>
          (case isLoaded_fn (ByValue p) s of
             Throw x \<Rightarrow> (Finish (Throw x), s)
           | OutOfFuel \<Rightarrow> (Finish OutOfFuel, s)
           | Return loaded \<Rightarrow>
               if loaded then
                 (let s1 = log_info e ''loadPackage: package already loaded'' packageName s in
                    if isReady p then
                      (let s2 = log_info e ''loadPackage: package already loaded and ready''
                                  packageName s1 in
                         if doNotExecute p \<or> failedDependencies p \<noteq> None
                            \<or> didFailToEvaluate p
                         then (Finish (Return True),
                               log_warn e ''loadPackage: package flagged not to be executed''
                                 packageName s2)
                         else if isExecuted p then
                           (case sc_invokeCallbacksForPackage e packageName
                                   (registerCallbackForPackage e packageName target method args
                                      s2) of
                              (Return u, s3) \<Rightarrow> (Finish (Return True), s3)
                            | (Throw x, s3) \<Rightarrow> (Finish (Throw x), s3)
                            | (OutOfFuel, s3) \<Rightarrow> (Finish OutOfFuel, s3))
                         else (Evaluate, s2))
                    else
                      (Finish (Return False),
                       log_info e ''loadPackage: package loaded but was not ready yet''
                         packageName s1))
               else
                 (Finish (Return False),
                  loadJavaScript e packageName
                    (registerCallbackForPackage e packageName target method args s))))"

text \<open>
  One turn of the loop of \<^verbatim>\<open>_sc_packageDidExecute\<close> for the dependent \<open>d\<close>, up to
  the call of \<^verbatim>\<open>loadPackage\<close>: the result \<open>Return True\<close> says that the call is made.
\<close>

definition didExecute_step ::
  "env \<Rightarrow> string \<Rightarrow> bool \<Rightarrow> string \<Rightarrow> state \<Rightarrow> bool result \<times> state" where
  "didExecute_step e packageName didFail d s =
     (case lookup s d of
        None \<Rightarrow> (Throw (DependentNotFound d packageName), s)
      | Some dependent \<Rightarrow>
          (case dependencies dependent of
             None \<Rightarrow>
               (Return False,
                log_warn e ''_sc_packageDidExecute: dependent marked as not having dependencies''
                  d s)
           | Some deps \<Rightarrow>
               if isReady dependent then
                 (Return False,
                  log_warn e ''_sc_packageDidExecute: dependent marked as ready'' d s)
               else if packageName \<notin> set deps then
                 (Return False,
                  log_warn e ''_sc_packageDidExecute: dependent does not depend on package'' d s)
               else if didFail then
                 (Return False,
                  modify d
                    (\<lambda>p. p\<lparr>failedDependencies :=
                              Some ((case failedDependencies p of None \<Rightarrow> [] | Some fs \<Rightarrow> fs)
                                    @ [packageName]),
                            doNotExecute := True\<rparr>) s)
               else
                 sc_dependenciesMetForPackage e d
                   (modify d (\<lambda>p. p\<lparr>dependencies := Some (remove1 packageName deps)\<rparr>) s)))"

text \<open>
  The functions that call each other: \<^verbatim>\<open>loadPackage\<close>,
  \<^verbatim>\<open>_sc_evaluateJavaScriptForPackage\<close>, \<^verbatim>\<open>_sc_packageDidExecute\<close> and the loop of
  the latter over the dependents. The fuel \<open>n\<close> bounds how deep
  \<^verbatim>\<open>_sc_packageDidExecute\<close> may re-enter \<^verbatim>\<open>loadPackage\<close>; it is spent only there.
\<close>

function (sequential) loadPackage ::
    "env \<Rightarrow> nat \<Rightarrow> string \<Rightarrow> jsval \<Rightarrow> jsval \<Rightarrow> jsval list \<Rightarrow> state \<Rightarrow> bool result \<times> state"
  and sc_evaluateJavaScriptForPackage ::
    "env \<Rightarrow> nat \<Rightarrow> string \<Rightarrow> state \<Rightarrow> unit result \<times> state"
  and sc_packageDidExecute ::
    "env \<Rightarrow> nat \<Rightarrow> string \<Rightarrow> state \<Rightarrow> unit result \<times> state"
  and didExecute_loop ::
    "env \<Rightarrow> nat \<Rightarrow> string \<Rightarrow> bool \<Rightarrow> string list \<Rightarrow> state \<Rightarrow> unit result \<times> state"
where
  "loadPackage e n packageName target method args s =
     (case loadPackage_head e packageName target method args s of
        (Finish r, s1) \<Rightarrow> (r, s1)
      | (Evaluate, s1) \<Rightarrow>
          (case sc_evaluateJavaScriptForPackage e n packageName s1 of
             (Return u, s2) \<Rightarrow> (Return True, s2)
           | (Throw x, s2) \<Rightarrow> (Throw x, s2)
           | (OutOfFuel, s2) \<Rightarrow> (OutOfFuel, s2)))"
| "sc_evaluateJavaScriptForPackage e n packageName s =
     (case evaluate_source e packageName s of
        (True, s1) \<Rightarrow> sc_packageDidExecute e n packageName s1
      | (False, s1) \<Rightarrow> (Return (), s1))"
| "sc_packageDidExecute e n packageName s =
     (case didExecute_head e packageName s of
        (None, s1) \<Rightarrow> (Return (), s1)
      | (Some (didFail, ds), s1) \<Rightarrow> didExecute_loop e n packageName didFail ds s1)"
| "didExecute_loop e n packageName didFail [] s = (Return (), s)"
| "didExecute_loop e n packageName didFail (d # ds) s =
     (case didExecute_step e packageName didFail d s of
        (Return False, s1) \<Rightarrow> didExecute_loop e n packageName didFail ds s1
      | (Return True, s1) \<Rightarrow>
          (case n of
             0 \<Rightarrow> (OutOfFuel, s1)
           | Suc m \<Rightarrow>
               (case loadPackage e m d Undefined Undefined [] s1 of
                  (Return b, s2) \<Rightarrow> didExecute_loop e n packageName didFail ds s2
                | (Throw x, s2) \<Rightarrow> (Throw x, s2)
                | (OutOfFuel, s2) \<Rightarrow> (OutOfFuel, s2)))
      | (Throw x, s1) \<Rightarrow> (Throw x, s1)
      | (OutOfFuel, s1) \<Rightarrow> (OutOfFuel, s1))"
  by pat_completeness auto

termination
  by (relation "measures
        [case_sum (case_sum (\<lambda>(e, n, r). n) (\<lambda>(e, n, r). n))
                  (case_sum (\<lambda>(e, n, r). n) (\<lambda>(e, n, r). n)),
         case_sum (case_sum (\<lambda>x. 3) (\<lambda>x. 2)) (case_sum (\<lambda>x. 1) (\<lambda>x. 0)),
         case_sum (case_sum (\<lambda>x. 0) (\<lambda>x. 0))
                  (case_sum (\<lambda>x. 0) (\<lambda>(e, n, name, didFail, ds, s). length ds))]")
     auto

text \<open>
  The loop of \<^verbatim>\<open>_sc_loadDependenciesForPackage\<close> over the clone of the
  dependencies: the package is pushed onto the dependency's \<^verbatim>\<open>dependents\<close>, and
  the dependency is thrown at the loader.
\<close>

fun loadDependencies_loop ::
  "env \<Rightarrow> nat \<Rightarrow> string \<Rightarrow> string list \<Rightarrow> state \<Rightarrow> unit result \<times> state" where
  "loadDependencies_loop e n packageName [] s = (Return (), s)"
| "loadDependencies_loop e n packageName (d # ds) s =
     (case lookup s d of
        None \<Rightarrow> (Throw (DependencyNotFound packageName d), s)
      | Some dependency \<Rightarrow>
          (case loadPackage e n d Undefined Undefined []
                  (log_info e ''_sc_loadDependenciesForPackage: loading dependency'' d
                     (modify d
                        (\<lambda>p. p\<lparr>dependents :=
                                  Some ((case dependents p of None \<Rightarrow> [] | Some xs \<Rightarrow> xs)
                                        @ [packageName])\<rparr>) s)) of
             (Return b, s1) \<Rightarrow> loadDependencies_loop e n packageName ds s1
           | (Throw x, s1) \<Rightarrow> (Throw x, s1)
           | (OutOfFuel, s1) \<Rightarrow> (OutOfFuel, s1)))"

definition sc_loadDependenciesForPackage ::
  "env \<Rightarrow> nat \<Rightarrow> string \<Rightarrow> state \<Rightarrow> unit result \<times> state" where
  "sc_loadDependenciesForPackage e n packageName s0 =
     (let s = log_info e ''_sc_loadDependenciesForPackage'' packageName s0 in
      case lookup s packageName of
        None \<Rightarrow>
          (Return (),
           log_warn e ''_sc_loadDependenciesForPackage: could not find package'' packageName s)
      | Some p \<Rightarrow>
          (case dependencies p of
             None \<Rightarrow> (Return (), s)
           | Some [] \<Rightarrow> (Return (), s)
           | Some ds \<Rightarrow> loadDependencies_loop e n packageName ds s))"

text \<open>\<^verbatim>\<open>_sc_packageDidLoad\<close>, called by the \<^verbatim>\<open>onload\<close> handler of the script.\<close>

definition sc_packageDidLoad :: "env \<Rightarrow> nat \<Rightarrow> string \<Rightarrow> state \<Rightarrow> unit result \<times> state" where
  "sc_packageDidLoad e n packageName s0 =
     (let s = log_info e ''_sc_packageDidLoad'' packageName s0 in
      case lookup s packageName of
        None \<Rightarrow> (Return (), warn ''_sc_packageDidLoad: unknown package loaded'' packageName s)
      | Some p \<Rightarrow>
          (case sc_dependenciesMetForPackage e packageName
                  (modify packageName (\<lambda>p. p\<lparr>isLoaded := True, isLoading := False\<rparr>) s) of
             (Return met, s1) \<Rightarrow>
               if met then
                 (let s2 = log_info e ''_sc_packageDidLoad: dependencies met'' packageName s1 in
                    if (case lookup s2 packageName of None \<Rightarrow> False | Some q \<Rightarrow> isExecuted q)
                    then (Return (), s2)
                    else sc_evaluateJavaScriptForPackage e n packageName s2)
               else
                 sc_loadDependenciesForPackage e n packageName
                   (log_info e ''_sc_packageDidLoad: dependencies were not met'' packageName s1)
           | (Throw x, s1) \<Rightarrow> (Throw x, s1)
           | (OutOfFuel, s1) \<Rightarrow> (OutOfFuel, s1)))"

text \<open>
  Fuel that is always enough: every re-entry of \<^verbatim>\<open>loadPackage\<close> from
  \<^verbatim>\<open>_sc_packageDidExecute\<close> comes after an evaluation that deleted at least one
  entry of some \<^verbatim>\<open>source\<close> object, and nothing ever adds one.
\<close>

definition source_size :: "package \<Rightarrow> nat" where
  "source_size p = (case source p of None \<Rightarrow> 0 | Some src \<Rightarrow> length src)"

definition fuel_for :: "state \<Rightarrow> nat" where
  "fuel_for s = Suc (sum_list (map (\<lambda>(name, p). source_size p) (manifest s)))"

section \<open>Vocabulary of the statements, and concrete manifests\<close>

text \<open>The dependencies a record still declares: none when the property is missing.\<close>

definition declared :: "package \<Rightarrow> string list" where
  "declared p = (case dependencies p of None \<Rightarrow> [] | Some ds \<Rightarrow> ds)"

text \<open>A record as the build tools write it, before the loader has touched it.\<close>

definition fresh :: package where
  "fresh = \<lparr>typeOf = T_HASH, rootNode = ''app'', basename = ''pkg'', dependencies = None, dependents = None,
            source = None, callbacks = None, isLoading = False, isLoaded = False,
            isReady = False, isExecuted = False, didFailToEvaluate = False,
            doNotExecute = False, failedDependencies = None\<rparr>"

text \<open>
  A function that the manifest object inherits from \<^verbatim>\<open>Object.prototype\<close>, with
  none of the properties of a package on it; \<open>key\<close> is the text of the function.
\<close>

definition inherited_function :: "string \<Rightarrow> package" where
  "inherited_function key =
     \<lparr>typeOf = T_OTHER key, rootNode = [], basename = [], dependencies = None,
      dependents = None, source = None, callbacks = None, isLoading = False,
      isLoaded = False, isReady = False, isExecuted = False, didFailToEvaluate = False,
      doNotExecute = False, failedDependencies = None\<rparr>"

text \<open>The default surroundings: no debug log, normal mode, nothing raises.\<close>

definition quiet :: env where
  "quiet = \<lparr>log = False, PACKAGE_MODE = PACKAGE_MODE_NORMAL,
            sink_throws = (\<lambda>tr code. False), cb_throws = (\<lambda>tr cb. False)\<rparr>"

text \<open>The callbacks queued on a record: none when the property is missing.\<close>

definition queued :: "package \<Rightarrow> callback list" where
  "queued p = (case callbacks p of None \<Rightarrow> [] | Some cbs \<Rightarrow> cbs)"

text \<open>The callbacks that were called, and the code strings that were executed, in order.\<close>

fun invocations :: "event list \<Rightarrow> callback list" where
  "invocations [] = []"
| "invocations (Invoked cb # evs) = cb # invocations evs"
| "invocations (ev # evs) = invocations evs"

fun executed :: "event list \<Rightarrow> string list" where
  "executed [] = []"
| "executed (Exec code # evs) = code # executed evs"
| "executed (ev # evs) = executed evs"

text \<open>
  The method after the normalisation, in the words of the specification: a callable
  target becomes the method.
\<close>

definition normalized_method :: "jsval \<Rightarrow> jsval \<Rightarrow> jsval" where
  "normalized_method target method = (if is_function target then target else method)"

text \<open>
  The specification's reading of the code string: the payloads of the listed parts that
  hold code, in the order of the list, joined by \<^verbatim>\<open>;\<close>.
\<close>

fun payloads :: "string list \<Rightarrow> (string \<times> string) list \<Rightarrow> string list" where
  "payloads [] src = []"
| "payloads (part # parts) src =
     (case map_of src part of
        None \<Rightarrow> payloads parts src
      | Some c \<Rightarrow> if c \<noteq> [] then c # payloads parts src else payloads parts src)"

fun joined :: "string list \<Rightarrow> string" where
  "joined [] = []"
| "joined [c] = c"
| "joined (c # d # cs) = c @ '';'' @ joined (d # cs)"

text \<open>
  A dependent is waiting on a package when it is not ready and still lists the package
  among its dependencies; it is poisoned by a package when \<^verbatim>\<open>doNotExecute\<close> is set
  and \<^verbatim>\<open>failedDependencies\<close> holds the package's name.
\<close>

definition waiting_on :: "string \<Rightarrow> package \<Rightarrow> bool" where
  "waiting_on name q = (\<not> isReady q \<and> name \<in> set (declared q))"

definition poisoned_by :: "string \<Rightarrow> package \<Rightarrow> bool" where
  "poisoned_by name q =
     (doNotExecute q \<and>
      name \<in> set (case failedDependencies q of None \<Rightarrow> [] | Some fs \<Rightarrow> fs))"

text \<open>
  Two records that differ at most in the callback queue and in the two poisoning
  properties.
\<close>

definition same_core :: "package \<Rightarrow> package \<Rightarrow> bool" where
  "same_core p q =
     (q\<lparr>callbacks := callbacks p, failedDependencies := failedDependencies p,
        doNotExecute := doNotExecute p\<rparr> = p)"

text \<open>The dependents registered on a record: none when the property is missing.\<close>

definition registered :: "package \<Rightarrow> string list" where
  "registered p = (case dependents p of None \<Rightarrow> [] | Some ds \<Rightarrow> ds)"

text \<open>A package that always fails: surroundings in which the execution sink raises.\<close>

definition raising :: env where
  "raising = quiet\<lparr>sink_throws := (\<lambda>tr code. True)\<rparr>"

text \<open>
  The situation after a failed evaluation of \<open>A\<close>, seen from a package \<open>B\<close> that
  depends on it: \<open>A\<close> is marked as failed and not executed; \<open>B\<close> is not executed, not
  ready, and still lists \<open>A\<close> among its dependencies.
\<close>

definition blocked :: "string \<Rightarrow> string \<Rightarrow> state \<Rightarrow> bool" where
  "blocked A B s =
     ((\<exists>a. lookup s A = Some a \<and> didFailToEvaluate a \<and> \<not> isExecuted a)
      \<and> (\<exists>b. lookup s B = Some b \<and> \<not> isExecuted b \<and> \<not> isReady b \<and> A \<in> set (declared b)))"

text \<open>
  What can happen to the loader from outside, one step at a time: a call of one of the
  public functions, or the \<^verbatim>\<open>onload\<close> of a script, which calls
  \<^verbatim>\<open>_sc_packageDidLoad\<close>. A step that throws leaves the manifest as it was at the
  throw, and the next step starts from there.
\<close>

datatype op =
    LoadPackage string jsval jsval "jsval list"
  | RegisterCallback string jsval jsval "jsval list"
  | LoadJavaScript string
  | PackageDidLoad string

fun run_op :: "env \<Rightarrow> op \<Rightarrow> state \<Rightarrow> state" where
  "run_op e (LoadPackage k target m args) s = snd (loadPackage e (fuel_for s) k target m args s)"
| "run_op e (RegisterCallback k target m args) s = registerCallbackForPackage e k target m args s"
| "run_op e (LoadJavaScript k) s = loadJavaScript e k s"
| "run_op e (PackageDidLoad k) s = snd (sc_packageDidLoad e (fuel_for s) k s)"

fun run_ops :: "env \<Rightarrow> op list \<Rightarrow> state \<Rightarrow> state" where
  "run_ops e [] s = s"
| "run_ops e (x # xs) s = run_ops e xs (run_op e x s)"

text \<open>
  The states the loader can be in. A manifest is clean when no record is marked ready,
  executed or poisoned, as the build tools write it; a state is reachable when steps of
  the loader lead to it from a clean one.
\<close>

definition clean :: "state \<Rightarrow> bool" where
  "clean s =
     (\<forall>k p. lookup s k = Some p \<longrightarrow>
        \<not> isReady p \<and> \<not> isExecuted p \<and> \<not> doNotExecute p \<and> failedDependencies p = None)"

definition reachable :: "env \<Rightarrow> state \<Rightarrow> bool" where
  "reachable e s = (\<exists>s0 xs. clean s0 \<and> s = run_ops e xs s0)"

text \<open>
  What holds in every reachable state: an executed record is ready and did not fail; a
  ready record has no dependencies left; a poisoned record still lists a package that
  failed. And what a step never undoes: that a record is executed, or that it failed.
\<close>

definition failed_in :: "state \<Rightarrow> string \<Rightarrow> bool" where
  "failed_in s f = (\<exists>q. lookup s f = Some q \<and> didFailToEvaluate q \<and> \<not> isExecuted q)"

definition executed_in :: "state \<Rightarrow> string \<Rightarrow> bool" where
  "executed_in s f = (\<exists>q. lookup s f = Some q \<and> isExecuted q)"

definition consistent :: "state \<Rightarrow> bool" where
  "consistent s =
     (\<forall>k p. lookup s k = Some p \<longrightarrow>
        (isExecuted p \<longrightarrow> isReady p \<and> \<not> didFailToEvaluate p)
        \<and> (isReady p \<longrightarrow> declared p = [])
        \<and> (doNotExecute p \<or> failedDependencies p \<noteq> None \<longrightarrow>
             (\<exists>f \<in> set (declared p). failed_in s f)))"

definition stable :: "state \<Rightarrow> state \<Rightarrow> bool" where
  "stable s s' =
     (\<forall>k. (executed_in s k \<longrightarrow> executed_in s' k) \<and> (failed_in s k \<longrightarrow> failed_in s' k))"

section \<open>Reading and writing the manifest\<close>

lemma lookup_emit [simp]: "lookup (emit ev s) name = lookup s name"
  by (simp add: lookup_def emit_def)

lemma lookup_warn [simp]: "lookup (warn site n s) name = lookup s name"
  by (simp add: warn_def)

lemma lookup_log_info [simp]: "lookup (log_info e site n s) name = lookup s name"
  by (simp add: log_info_def)

lemma lookup_log_warn [simp]: "lookup (log_warn e site n s) name = lookup s name"
  by (simp add: log_warn_def)

lemma lookup_modify:
  "lookup (modify n f s) name = (if name = n then map_option f (lookup s n) else lookup s name)"
  by (cases "map_of (manifest s) n") (simp_all add: lookup_def modify_def update_conv')

lemma trace_modify [simp]: "trace (modify n f s) = trace s"
  by (simp add: modify_def split: option.splits)

lemma manifest_emit [simp]: "manifest (emit ev s) = manifest s"
  by (simp add: emit_def)

lemma manifest_warn [simp]: "manifest (warn site n s) = manifest s"
  by (simp add: warn_def)

lemma manifest_log_info [simp]: "manifest (log_info e site n s) = manifest s"
  by (simp add: log_info_def)

lemma manifest_log_warn [simp]: "manifest (log_warn e site n s) = manifest s"
  by (simp add: log_warn_def)

lemma modify_absent: "lookup s n = None \<Longrightarrow> modify n f s = s"
  by (simp add: modify_def)

lemma isLoaded_hash: "typeOf p = T_HASH \<Longrightarrow> isLoaded_fn (ByValue p) s = Return (isLoaded p)"
  by (simp add: isLoaded_fn_def)

lemma isLoaded_not_OutOfFuel: "isLoaded_fn r s \<noteq> OutOfFuel"
  by (simp add: isLoaded_fn_def split: pkgref.splits jstype.splits option.splits)

section \<open>C1: \<^verbatim>\<open>_sc_dependenciesMetForPackage\<close>\<close>

lemma dependenciesMet_loop_False:
  "fst (dependenciesMet_loop name ds False s) \<noteq> Return True"
  by (induction ds arbitrary: s) (auto split: option.splits)

lemma dependenciesMet_loop_True_iff:
  "fst (dependenciesMet_loop name ds ready s) = Return True \<longleftrightarrow>
     ready \<and> (\<forall>d \<in> set ds. \<exists>q. lookup s d = Some q \<and> isExecuted q)"
proof (induction ds arbitrary: ready s)
  case Nil
  show ?case by simp
next
  case (Cons d ds)
  show ?case
  proof (cases "lookup s d")
    case None
    then show ?thesis by simp
  next
    case (Some q)
    show ?thesis
    proof (cases "isExecuted q")
      case True
      with Some Cons.IH [of ready s] show ?thesis by simp
    next
      case False
      with Some dependenciesMet_loop_False show ?thesis by simp
    qed
  qed
qed

lemma dependenciesMet_loop_True_state:
  "fst (dependenciesMet_loop name ds ready s) = Return True \<Longrightarrow>
     snd (dependenciesMet_loop name ds ready s) = s"
proof (induction ds arbitrary: ready s)
  case Nil
  show ?case by simp
next
  case (Cons d ds)
  from Cons.prems obtain q where q: "lookup s d = Some q"
    by (cases "lookup s d") auto
  from Cons.prems q have ex: "isExecuted q"
    using dependenciesMet_loop_False by (cases "isExecuted q") auto
  from Cons.prems q ex have "fst (dependenciesMet_loop name ds ready s) = Return True"
    by simp
  from Cons.IH [OF this] q ex show ?case by simp
qed

text \<open>
  Claim C1, as amended. For a record present in the manifest,
  \<^verbatim>\<open>_sc_dependenciesMetForPackage\<close> returns \<^verbatim>\<open>true\<close> if and only if every
  name in the record's \<^verbatim>\<open>dependencies\<close> refers to a record whose
  \<^verbatim>\<open>isExecuted\<close> is set (a missing or empty list counts as met). When it returns
  \<^verbatim>\<open>true\<close> it has set \<^verbatim>\<open>isReady\<close>, and it has deleted a non-empty
  \<^verbatim>\<open>dependencies\<close> list; an empty list stays on the record.
\<close>

theorem dependenciesMet_iff_all_executed:
  assumes "lookup s name = Some p"
  shows "(fst (sc_dependenciesMetForPackage e name s) = Return True \<longleftrightarrow>
            (\<forall>d \<in> set (declared p). \<exists>q. lookup s d = Some q \<and> isExecuted q))
       \<and> (fst (sc_dependenciesMetForPackage e name s) = Return True \<longrightarrow>
            lookup (snd (sc_dependenciesMetForPackage e name s)) name =
              Some (p\<lparr>dependencies := (if dependencies p = Some [] then Some [] else None),
                      isReady := True\<rparr>))"
proof (cases "dependencies p")
  case None
  with assms show ?thesis
    by (simp add: sc_dependenciesMetForPackage_def declared_def lookup_modify)
next
  case (Some ds)
  show ?thesis
  proof (cases ds)
    case Nil
    with Some assms show ?thesis
      by (simp add: sc_dependenciesMetForPackage_def declared_def lookup_modify)
  next
    case (Cons d ds')
    let ?s = "log_info e ''_sc_dependenciesMetForPackage'' name s"
    obtain r s1 where loop: "dependenciesMet_loop name ds True ?s = (r, s1)"
      by (cases "dependenciesMet_loop name ds True ?s")
    have iff: "r = Return True \<longleftrightarrow> (\<forall>d \<in> set ds. \<exists>q. lookup s d = Some q \<and> isExecuted q)"
      using dependenciesMet_loop_True_iff [of name ds True ?s] loop by simp
    have st: "r = Return True \<Longrightarrow> s1 = ?s"
      using dependenciesMet_loop_True_state [of name ds True ?s] loop by simp
    have res: "fst (sc_dependenciesMetForPackage e name s) = Return True \<longleftrightarrow> r = Return True"
      using assms Some Cons loop
      by (cases r) (auto simp: sc_dependenciesMetForPackage_def)
    have post: "r = Return True \<Longrightarrow>
        lookup (snd (sc_dependenciesMetForPackage e name s)) name =
          Some (p\<lparr>dependencies := None, isReady := True\<rparr>)"
      using assms Some Cons loop st
      by (auto simp: sc_dependenciesMetForPackage_def lookup_modify)
    from res iff post Some Cons show ?thesis
      by (simp add: declared_def)
  qed
qed


theorem dependenciesMet_iff_all_executed_witness:
  "lookup \<lparr>manifest = [(''A'', fresh\<lparr>isExecuted := True\<rparr>),
                        (''B'', fresh\<lparr>dependencies := Some [''A'']\<rparr>)], trace = []\<rparr> ''B''
     = Some (fresh\<lparr>dependencies := Some [''A'']\<rparr>)
   \<and> fst (sc_dependenciesMetForPackage quiet ''B''
         \<lparr>manifest = [(''A'', fresh\<lparr>isExecuted := True\<rparr>),
                      (''B'', fresh\<lparr>dependencies := Some [''A'']\<rparr>)], trace = []\<rparr>) = Return True
   \<and> lookup (snd (sc_dependenciesMetForPackage quiet ''B''
         \<lparr>manifest = [(''A'', fresh\<lparr>isExecuted := True\<rparr>),
                      (''B'', fresh\<lparr>dependencies := Some [''A'']\<rparr>)], trace = []\<rparr>)) ''B''
     = Some (fresh\<lparr>dependencies := None, isReady := True\<rparr>)"
proof -
  let ?s = "\<lparr>manifest = [(''A'', fresh\<lparr>isExecuted := True\<rparr>),
                        (''B'', fresh\<lparr>dependencies := Some [''A'']\<rparr>)], trace = []\<rparr>"
  have h: "lookup ?s ''B'' = Some (fresh\<lparr>dependencies := Some [''A'']\<rparr>)"
    by (simp add: lookup_def)
  have a: "lookup ?s ''A'' = Some (fresh\<lparr>isExecuted := True\<rparr>)"
    by (simp add: lookup_def)
  from dependenciesMet_iff_all_executed [OF h, of quiet] h a show ?thesis
    by (simp add: declared_def)
qed

text \<open>
  The claim as first stated fails on an empty list: the function returns \<^verbatim>\<open>true\<close>
  through its early exit and the \<^verbatim>\<open>dependencies\<close> property is still there.
\<close>

theorem dependenciesMet_keeps_empty_list:
  "fst (sc_dependenciesMetForPackage quiet ''A''
          \<lparr>manifest = [(''A'', fresh\<lparr>dependencies := Some []\<rparr>)], trace = []\<rparr>) = Return True
   \<and> map_option dependencies
         (lookup (snd (sc_dependenciesMetForPackage quiet ''A''
            \<lparr>manifest = [(''A'', fresh\<lparr>dependencies := Some []\<rparr>)], trace = []\<rparr>)) ''A'')
       = Some (Some [])"
  by (simp add: sc_dependenciesMetForPackage_def lookup_def modify_def log_info_def quiet_def
      fresh_def)

section \<open>C10: what \<^verbatim>\<open>registerCallbackForPackage\<close> drops\<close>

lemma is_function_truthy: "is_function v \<Longrightarrow> truthy v"
  by (cases v) simp_all

lemma is_function_not_none: "is_function v \<Longrightarrow> \<not> none v"
  by (cases v) simp_all

lemma make_callback_None_iff:
  "make_callback name target method args = None \<longleftrightarrow>
     \<not> is_function (normalized_method target method)"
  by (auto simp: make_callback_def normalized_method_def is_function_truthy
      dest: is_function_not_none)

text \<open>
  Claim C10. When the method that is left after the normalisation is missing or is not a
  function, \<^verbatim>\<open>registerCallbackForPackage\<close> queues nothing: the manifest is the
  same, and for a known package so is the whole state. In particular this is so when
  neither the target nor the method is a function. (The second conjunct shows that the
  test is exact: in every other case one callback is appended to the queue.)
\<close>

theorem registerCallback_drops_non_function:
  "(\<not> is_function (normalized_method target method) \<longrightarrow>
      manifest (registerCallbackForPackage e name target method args s) = manifest s
      \<and> (lookup s name \<noteq> None \<longrightarrow>
           registerCallbackForPackage e name target method args s = s))
   \<and> (is_function (normalized_method target method) \<and> lookup s name = Some p \<longrightarrow>
        (\<exists>cb. map_option queued
                 (lookup (registerCallbackForPackage e name target method args s) name)
               = Some (queued p @ [cb])))"
proof -
  have a: "manifest (registerCallbackForPackage e name target method args s) = manifest s"
    if "\<not> is_function (normalized_method target method)"
    using that make_callback_None_iff [of name target "method" args]
    by (simp add: registerCallbackForPackage_def split: option.splits)
  have b: "registerCallbackForPackage e name target method args s = s"
    if "\<not> is_function (normalized_method target method)" "lookup s name \<noteq> None"
    using that make_callback_None_iff [of name target "method" args]
    by (auto simp: registerCallbackForPackage_def split: option.splits)
  have c: "\<exists>cb. map_option queued
                 (lookup (registerCallbackForPackage e name target method args s) name)
               = Some (queued p @ [cb])"
    if "is_function (normalized_method target method)" "lookup s name = Some p"
  proof -
    from that(1) make_callback_None_iff [of name target "method" args]
    obtain cb where "make_callback name target method args = Some cb"
      by (cases "make_callback name target method args") auto
    with that(2) show ?thesis
      by (auto simp: registerCallbackForPackage_def lookup_modify queued_def
          split: option.splits)
  qed
  from a b c show ?thesis by blast
qed

theorem registerCallback_drops_non_function_witness:
  "\<not> is_function (normalized_method (JObj 1) (JStr ''notAFunction''))
   \<and> registerCallbackForPackage quiet ''A'' (JObj 1) (JStr ''notAFunction'') []
        \<lparr>manifest = [(''A'', fresh)], trace = []\<rparr>
       = \<lparr>manifest = [(''A'', fresh)], trace = []\<rparr>
   \<and> is_function (normalized_method (JFun 7) Undefined)
   \<and> map_option queued
        (lookup (registerCallbackForPackage quiet ''A'' (JFun 7) Undefined []
                   \<lparr>manifest = [(''A'', fresh)], trace = []\<rparr>) ''A'')
       = Some [Callback Null (JFun 7) [JStr ''A'']]"
proof -
  have h: "\<not> is_function (normalized_method (JObj 1) (JStr ''notAFunction''))"
    by (simp add: normalized_method_def)
  have k: "lookup \<lparr>manifest = [(''A'', fresh)], trace = []\<rparr> ''A'' \<noteq> None"
    by (simp add: lookup_def)
  have g: "map_option queued
        (lookup (registerCallbackForPackage quiet ''A'' (JFun 7) Undefined []
                   \<lparr>manifest = [(''A'', fresh)], trace = []\<rparr>) ''A'')
       = Some [Callback Null (JFun 7) [JStr ''A'']]"
    by (simp add: registerCallbackForPackage_def make_callback_def lookup_def modify_def
        queued_def fresh_def)
  from registerCallback_drops_non_function
         [of "JObj 1" "JStr ''notAFunction''" quiet "''A''" "[]"
             "\<lparr>manifest = [(''A'', fresh)], trace = []\<rparr>" fresh] h k g
  show ?thesis by (simp add: normalized_method_def)
qed

section \<open>\<^verbatim>\<open>_sc_invokeCallbacksForPackage\<close> with callbacks that do not call back\<close>

lemma invocations_append: "invocations (xs @ ys) = invocations xs @ invocations ys"
  by (induction xs rule: invocations.induct) simp_all

lemma executed_append: "executed (xs @ ys) = executed xs @ executed ys"
  by (induction xs rule: executed.induct) simp_all

lemma trace_emit [simp]: "trace (emit ev s) = trace s @ [ev]"
  by (simp add: emit_def)

lemma trace_warn [simp]: "trace (warn site n s) = trace s @ [Logged WARN site n]"
  by (simp add: warn_def)

lemma invocations_log_info [simp]:
  "invocations (trace (log_info e site n s)) = invocations (trace s)"
  by (simp add: log_info_def invocations_append)

lemma invocations_log_warn [simp]:
  "invocations (trace (log_warn e site n s)) = invocations (trace s)"
  by (simp add: log_warn_def invocations_append)

lemma executed_log_info [simp]:
  "executed (trace (log_info e site n s)) = executed (trace s)"
  by (simp add: log_info_def executed_append)

lemma executed_log_warn [simp]:
  "executed (trace (log_warn e site n s)) = executed (trace s)"
  by (simp add: log_warn_def executed_append)

lemma trace_invokeCallback:
  "trace (invokeCallback e name cb s) =
     trace s @ Invoked cb #
       (if cb_throws e (trace s) cb
        then [Logged WARN
                ''_sc_packageDidExecute: error when attempting to execute package callback''
                name]
        else [])"
  by (simp add: invokeCallback_def Let_def)

lemma manifest_invokeCallback [simp]: "manifest (invokeCallback e name cb s) = manifest s"
  by (simp add: invokeCallback_def Let_def)

lemma manifest_invokeCallbacks_loop [simp]:
  "manifest (invokeCallbacks_loop e name cbs s) = manifest s"
  by (induction cbs arbitrary: s) simp_all

lemma invocations_invokeCallbacks_loop:
  "invocations (trace (invokeCallbacks_loop e name cbs s)) = invocations (trace s) @ cbs"
  by (induction cbs arbitrary: s) (simp_all add: trace_invokeCallback invocations_append)

lemma executed_invokeCallbacks_loop:
  "executed (trace (invokeCallbacks_loop e name cbs s)) = executed (trace s)"
  by (induction cbs arbitrary: s) (simp_all add: trace_invokeCallback executed_append)

lemma lookup_invokeCallbacks_loop [simp]:
  "lookup (invokeCallbacks_loop e name cbs s) k = lookup s k"
  by (simp add: lookup_def)

lemma invokeCallbacks_known:
  assumes "lookup s name = Some p"
  shows "fst (sc_invokeCallbacksForPackage e name s) = Return ()"
    and "manifest (snd (sc_invokeCallbacksForPackage e name s)) =
           AList.update name (p\<lparr>callbacks := None\<rparr>) (manifest s)"
    and "invocations (trace (snd (sc_invokeCallbacksForPackage e name s))) =
           invocations (trace s) @ queued p"
    and "executed (trace (snd (sc_invokeCallbacksForPackage e name s))) = executed (trace s)"
    and "lookup (snd (sc_invokeCallbacksForPackage e name s)) k =
           (if k = name then Some (p\<lparr>callbacks := None\<rparr>) else lookup s k)"
  using assms
  by (simp_all add: sc_invokeCallbacksForPackage_def Let_def modify_def queued_def
      invocations_invokeCallbacks_loop executed_invokeCallbacks_loop lookup_def update_conv')

text \<open>
  What claim C7 says of the queue holds for callbacks that do not call back into the
  loader, and only for them. For a package of the manifest,
  \<^verbatim>\<open>_sc_invokeCallbacksForPackage\<close> then returns normally whatever the callbacks do;
  the callbacks called are exactly the queued ones, each once, in the order of
  registration; the manifest afterwards is the old one with the queue deleted from the
  record, so it does not depend on which callbacks raised; a second invocation calls
  nothing; and a turn of the loop whose callback raises logs a warning right after the
  call and leaves the manifest alone.

  The claim itself is about every callback, and the code does not meet it. Let the
  package \<open>A\<close> be executed and let \<open>cb1\<close> and \<open>cb2\<close> be queued on it, where
  \<open>cb1\<close>, the first time it runs, calls \<^verbatim>\<open>loadPackage\<close> for \<open>A\<close>. The loop calls
  \<open>cb1\<close>; the nested \<^verbatim>\<open>loadPackage\<close> takes the branch for an executed package
  and walks the same array from its start, which is still on the record, so that
  \<open>cb1\<close> and \<open>cb2\<close> are called and only then the queue is deleted; back in the
  outer loop, which holds the array, \<open>cb2\<close> is called again. The calls are
  \<open>cb1\<close>, \<open>cb1\<close>, \<open>cb2\<close>, \<open>cb2\<close>, against the comment above the
  \<^verbatim>\<open>delete\<close>, which is there "to make sure we don't ever run them twice".
\<close>

lemma invokeCallbacks_fifo_isolated:
  assumes "lookup s name = Some p"
  shows "fst (sc_invokeCallbacksForPackage e name s) = Return ()
       \<and> invocations (trace (snd (sc_invokeCallbacksForPackage e name s))) =
           invocations (trace s) @ queued p
       \<and> manifest (snd (sc_invokeCallbacksForPackage e name s)) =
           AList.update name (p\<lparr>callbacks := None\<rparr>) (manifest s)
       \<and> invocations (trace (snd (sc_invokeCallbacksForPackage e name
                                     (snd (sc_invokeCallbacksForPackage e name s))))) =
           invocations (trace (snd (sc_invokeCallbacksForPackage e name s)))
       \<and> (\<forall>cb t. cb_throws e (trace t) cb \<longrightarrow>
             trace (invokeCallback e name cb t) =
               trace t @ [Invoked cb,
                 Logged WARN
                   ''_sc_packageDidExecute: error when attempting to execute package callback''
                   name]
             \<and> manifest (invokeCallback e name cb t) = manifest t)"
proof -
  let ?s' = "snd (sc_invokeCallbacksForPackage e name s)"
  have l: "lookup ?s' name = Some (p\<lparr>callbacks := None\<rparr>)"
    using invokeCallbacks_known(5) [OF assms, of e name] by simp
  have again: "invocations (trace (snd (sc_invokeCallbacksForPackage e name ?s'))) =
                 invocations (trace ?s')"
    using invokeCallbacks_known(3) [OF l, of e] by (simp add: queued_def)
  from invokeCallbacks_known(1,2,3) [OF assms, of e] again show ?thesis
    by (simp add: trace_invokeCallback)
qed

lemma invokeCallbacks_fifo_isolated_example:
  "lookup \<lparr>manifest = [(''A'', fresh\<lparr>callbacks :=
              Some [Callback Null (JFun 1) [JStr ''A''], Callback Null (JFun 2) [JStr ''A'']]\<rparr>)],
           trace = []\<rparr> ''A''
     = Some (fresh\<lparr>callbacks :=
              Some [Callback Null (JFun 1) [JStr ''A''], Callback Null (JFun 2) [JStr ''A'']]\<rparr>)
   \<and> invocations (trace (snd (sc_invokeCallbacksForPackage
         (quiet\<lparr>cb_throws := (\<lambda>tr cb. cb_method cb = JFun 1)\<rparr>) ''A''
         \<lparr>manifest = [(''A'', fresh\<lparr>callbacks :=
              Some [Callback Null (JFun 1) [JStr ''A''], Callback Null (JFun 2) [JStr ''A'']]\<rparr>)],
           trace = []\<rparr>)))
     = [Callback Null (JFun 1) [JStr ''A''], Callback Null (JFun 2) [JStr ''A'']]
   \<and> manifest (snd (sc_invokeCallbacksForPackage
         (quiet\<lparr>cb_throws := (\<lambda>tr cb. cb_method cb = JFun 1)\<rparr>) ''A''
         \<lparr>manifest = [(''A'', fresh\<lparr>callbacks :=
              Some [Callback Null (JFun 1) [JStr ''A''], Callback Null (JFun 2) [JStr ''A'']]\<rparr>)],
           trace = []\<rparr>))
     = [(''A'', fresh)]"
proof -
  let ?p = "fresh\<lparr>callbacks :=
              Some [Callback Null (JFun 1) [JStr ''A''], Callback Null (JFun 2) [JStr ''A'']]\<rparr>"
  let ?s = "\<lparr>manifest = [(''A'', ?p)], trace = []\<rparr>"
  have h: "lookup ?s ''A'' = Some ?p"
    by (simp add: lookup_def)
  from invokeCallbacks_fifo_isolated
         [OF h, of "quiet\<lparr>cb_throws := (\<lambda>tr cb. cb_method cb = JFun 1)\<rparr>"] h
  show ?thesis
    by (simp add: queued_def fresh_def)
qed

section \<open>C8: a name that the manifest lookup does not find\<close>














text \<open>
  A name that the manifest object inherits is not such a name: the lookup finds the
  inherited function and the code goes on with it as if it were a record. With
  \<^verbatim>\<open>toString\<close>, \<^verbatim>\<open>loadPackage\<close> passes its own test for a missing package and
  hands the function to \<^verbatim>\<open>isLoaded\<close>, which takes it for a name, finds nothing under
  it and throws; with \<^verbatim>\<open>constructor\<close>, \<^verbatim>\<open>isLoaded\<close> finds the function and
  answers \<^verbatim>\<open>false\<close>.
\<close>

lemma inherited_name_is_found:
  "loadPackage quiet 0 ''toString'' Undefined Undefined []
     \<lparr>manifest = [(''A'', fresh),
                  (''toString'', inherited_function ''function toString() { [native code] }''),
                  (''constructor'', inherited_function ''function Object() { [native code] }'')],
      trace = []\<rparr>
     = (Throw (IsLoadedNotFound ''function toString() { [native code] }''),
        \<lparr>manifest = [(''A'', fresh),
                     (''toString'', inherited_function ''function toString() { [native code] }''),
                     (''constructor'', inherited_function ''function Object() { [native code] }'')],
         trace = []\<rparr>)
   \<and> isLoaded_fn (ByName ''constructor'')
        \<lparr>manifest = [(''A'', fresh),
                     (''toString'', inherited_function ''function toString() { [native code] }''),
                     (''constructor'', inherited_function ''function Object() { [native code] }'')],
         trace = []\<rparr>
     = Return False"
  by (simp add: loadPackage_head_def isLoaded_fn_def Let_def lookup_def log_info_def quiet_def
      inherited_function_def)

section \<open>\<^verbatim>\<open>loadPackage\<close> on an executed package\<close>

lemma registerCallback_known:
  assumes "lookup s name = Some p" "make_callback name target method args = Some cb"
  shows "registerCallbackForPackage e name target method args s =
           modify name (\<lambda>p. p\<lparr>callbacks := Some (queued p @ [cb])\<rparr>) s"
  using assms by (simp add: registerCallbackForPackage_def queued_def)

lemma make_callback_first_arg:
  "make_callback name target method args = Some cb \<Longrightarrow> hd (cb_args cb) = JStr name"
  by (auto simp: make_callback_def Let_def split: if_splits)

lemma evaluate_executed:
  assumes "lookup s name = Some p" "isExecuted p"
  shows "sc_evaluateJavaScriptForPackage e n name s =
           (Return (),
            warn ''_sc_evaluateJavaScriptForPackage: package already executed'' name
              (log_info e ''_sc_evaluateJavaScriptForPackage'' name s))"
  using assms by (simp add: evaluate_source_def Let_def)

text \<open>
  \<^verbatim>\<open>loadPackage\<close> on a record that is loaded, ready, executed and not flagged: the
  branch that registers the callback and calls the queue.
\<close>

lemma loadPackage_executed_unflagged:
  assumes "lookup s name = Some p"
    and "isLoaded p" and "isReady p" and "isExecuted p"
    and "\<not> doNotExecute p" and "failedDependencies p = None" and "\<not> didFailToEvaluate p"
    and "make_callback name target method args = Some cb"
    and "typeOf p = T_HASH"
  shows "fst (loadPackage e n name target method args s) = Return True
       \<and> invocations (trace (snd (loadPackage e n name target method args s))) =
           invocations (trace s) @ queued p @ [cb]
       \<and> hd (cb_args cb) = JStr name
       \<and> executed (trace (snd (loadPackage e n name target method args s))) =
           executed (trace s)
       \<and> lookup (snd (loadPackage e n name target method args s)) name =
           Some (p\<lparr>callbacks := None\<rparr>)
       \<and> sc_evaluateJavaScriptForPackage e n name s =
           (Return (),
            warn ''_sc_evaluateJavaScriptForPackage: package already executed'' name
              (log_info e ''_sc_evaluateJavaScriptForPackage'' name s))"
proof -
  let ?s2 = "log_info e ''loadPackage: package already loaded and ready'' name
               (log_info e ''loadPackage: package already loaded'' name
                  (log_info e ''loadPackage'' name s))"
  let ?s3 = "registerCallbackForPackage e name target method args ?s2"
  let ?q = "p\<lparr>callbacks := Some (queued p @ [cb])\<rparr>"
  have l2: "lookup ?s2 name = Some p"
    using assms(1) by simp
  have s3: "?s3 = modify name (\<lambda>p. p\<lparr>callbacks := Some (queued p @ [cb])\<rparr>) ?s2"
    using registerCallback_known [OF l2 assms(8)] .
  have l3: "lookup ?s3 name = Some ?q"
    using l2 by (simp add: s3 lookup_modify)
  have t3: "trace ?s3 = trace ?s2"
    by (simp add: s3)
  have head: "loadPackage e n name target method args s =
                (Return True, snd (sc_invokeCallbacksForPackage e name ?s3))"
    using assms(1-7) invokeCallbacks_known(1) [OF l3, of e] isLoaded_hash [OF assms(9)]
    by (cases "sc_invokeCallbacksForPackage e name ?s3")
       (simp add: loadPackage_head_def Let_def)
  have inv: "invocations (trace (snd (sc_invokeCallbacksForPackage e name ?s3))) =
               invocations (trace s) @ queued p @ [cb]"
    using invokeCallbacks_known(3) [OF l3, of e] by (simp add: t3 queued_def)
  have ex: "executed (trace (snd (sc_invokeCallbacksForPackage e name ?s3))) =
              executed (trace s)"
    using invokeCallbacks_known(4) [OF l3, of e] by (simp add: t3)
  have lk: "lookup (snd (sc_invokeCallbacksForPackage e name ?s3)) name =
              Some (p\<lparr>callbacks := None\<rparr>)"
    using invokeCallbacks_known(5) [OF l3, of e name] by simp
  from head inv ex lk make_callback_first_arg [OF assms(8)]
    evaluate_executed [OF assms(1) assms(4), of e n]
  show ?thesis by simp
qed

section \<open>C4: the order of the parts in the executed code\<close>

lemma payloads_delete:
  "part \<notin> set parts \<Longrightarrow> payloads parts (AList.delete part src) = payloads parts src"
  by (induction parts) (auto split: option.splits)

lemma payloads_nonempty: "c \<in> set (payloads parts src) \<Longrightarrow> c \<noteq> []"
  by (induction parts) (auto split: option.splits if_splits)

lemma joined_Cons: "joined (c # cs) = (if cs = [] then c else c @ '';'' @ joined cs)"
  by (cases cs) simp_all

lemma joined_empty_iff: "(\<forall>c \<in> set cs. c \<noteq> []) \<Longrightarrow> joined cs = [] \<longleftrightarrow> cs = []"
  by (cases cs) (auto simp: joined_Cons)

lemma accumulate_code:
  "distinct parts \<Longrightarrow>
     fst (accumulate parts code src) =
       (if payloads parts src = [] then code
        else if code = [] then joined (payloads parts src)
        else code @ '';'' @ joined (payloads parts src))"
proof (induction parts arbitrary: code src)
  case Nil
  show ?case by simp
next
  case (Cons part parts)
  then have d: "distinct parts" and n: "part \<notin> set parts" by simp_all
  show ?case
  proof (cases "map_of src part")
    case None
    with Cons.IH [OF d] show ?thesis by simp
  next
    case (Some c)
    show ?thesis
    proof (cases "c = []")
      case True
      with Some Cons.IH [OF d] show ?thesis by simp
    next
      case False
      with Some Cons.IH [OF d, of "(if code \<noteq> [] then code @ '';'' else code) @ c"
          "AList.delete part src"] n
      show ?thesis
        by (simp add: payloads_delete joined_Cons)
    qed
  qed
qed

lemma accumulate_source:
  "map_of (snd (accumulate parts code src)) k =
     (if k \<in> set parts \<and> map_of src k \<noteq> Some [] then None else map_of src k)"
proof (induction parts arbitrary: code src)
  case Nil
  show ?case by simp
next
  case (Cons part parts)
  show ?case
    by (cases "map_of src part") (auto simp: Cons.IH delete_conv')
qed

lemma accumulate_nothing:
  "(\<forall>part \<in> set parts. map_of src part = None \<or> map_of src part = Some []) \<Longrightarrow>
     accumulate parts code src = (code, src)"
  by (induction parts) auto

lemma parts_for_fixed_order:
  "parts_for flags =
     filter (\<lambda>part. part \<in> set (parts_for flags)) [''other'', ''models'', ''controllers'', ''views'']"
  by (simp add: parts_for_def)

lemma distinct_parts_for: "distinct (parts_for flags)"
  by (simp add: parts_for_def)

lemma parts_for_normal:
  "flag_set flags PACKAGE_MODE_NORMAL \<Longrightarrow>
     parts_for flags = [''other'', ''models'', ''controllers'', ''views'']"
  by (simp add: parts_for_def)

lemma parts_for_other_first:
  "''other'' \<in> set (parts_for flags) \<Longrightarrow> \<exists>rest. parts_for flags = ''other'' # rest"
  by (auto simp: parts_for_def split: if_splits)

lemma evaluate_source_executed:
  assumes "lookup s name = Some p" "\<not> isExecuted p" "source p = Some src"
  shows "executed (trace (snd (evaluate_source e name s))) =
           executed (trace s) @
             (if payloads (parts_for (PACKAGE_MODE e)) src = [] then []
              else [joined (payloads (parts_for (PACKAGE_MODE e)) src)])"
    and "fst (evaluate_source e name s) \<longleftrightarrow> payloads (parts_for (PACKAGE_MODE e)) src \<noteq> []"
proof -
  let ?parts = "parts_for (PACKAGE_MODE e)"
  obtain code src' where acc: "accumulate ?parts [] src = (code, src')"
    by (cases "accumulate ?parts [] src")
  have code: "code = joined (payloads ?parts src)"
    using accumulate_code [OF distinct_parts_for, of "PACKAGE_MODE e" "[]" src] acc by simp
  have ne: "code = [] \<longleftrightarrow> payloads ?parts src = []"
    unfolding code using joined_empty_iff [of "payloads ?parts src"] payloads_nonempty
    by blast
  show "executed (trace (snd (evaluate_source e name s))) =
           executed (trace s) @
             (if payloads ?parts src = [] then [] else [joined (payloads ?parts src)])"
    using assms acc ne code
    by (simp add: evaluate_source_def Let_def executed_append)
  show "fst (evaluate_source e name s) \<longleftrightarrow> payloads ?parts src \<noteq> []"
    using assms acc ne
    by (simp add: evaluate_source_def Let_def)
qed

text \<open>
  Claim C4. Take a package that is not executed and has a source object. The code
  strings that \<^verbatim>\<open>_sc_evaluateJavaScriptForPackage\<close> hands to the execution sink before
  it notifies are: nothing when no selected part holds code, and otherwise the one
  string made of the payloads of the selected parts joined by \<^verbatim>\<open>;\<close>; the selected
  parts are always listed in the order other, models, controllers, views, whatever the
  mask and whatever the order of the keys in the source object. So with the normal mode
  and code in all four categories the string is \<open>o;m;c;v\<close>, and with any mask that
  selects \<^verbatim>\<open>other\<close> the string starts with the payload of \<^verbatim>\<open>other\<close>. When code was
  handed over, the function continues with \<^verbatim>\<open>_sc_packageDidExecute\<close>.
\<close>

theorem evaluate_fixed_order:
  assumes "lookup s name = Some p" and "\<not> isExecuted p" and "source p = Some src"
  shows "executed (trace (snd (evaluate_source e name s))) =
           executed (trace s) @
             (if payloads (parts_for (PACKAGE_MODE e)) src = [] then []
              else [joined (payloads (parts_for (PACKAGE_MODE e)) src)])
       \<and> parts_for (PACKAGE_MODE e) =
           filter (\<lambda>part. part \<in> set (parts_for (PACKAGE_MODE e)))
             [''other'', ''models'', ''controllers'', ''views'']
       \<and> (flag_set (PACKAGE_MODE e) PACKAGE_MODE_NORMAL
            \<and> map_of src ''other'' = Some ot \<and> ot \<noteq> []
            \<and> map_of src ''models'' = Some mo \<and> mo \<noteq> []
            \<and> map_of src ''controllers'' = Some co \<and> co \<noteq> []
            \<and> map_of src ''views'' = Some vi \<and> vi \<noteq> [] \<longrightarrow>
          executed (trace (snd (evaluate_source e name s))) =
            executed (trace s) @ [ot @ '';'' @ mo @ '';'' @ co @ '';'' @ vi])
       \<and> (''other'' \<in> set (parts_for (PACKAGE_MODE e))
            \<and> map_of src ''other'' = Some ot \<and> ot \<noteq> [] \<longrightarrow>
          (\<exists>rest. executed (trace (snd (evaluate_source e name s))) =
                    executed (trace s) @ [ot @ rest]))
       \<and> (payloads (parts_for (PACKAGE_MODE e)) src \<noteq> [] \<longrightarrow>
            sc_evaluateJavaScriptForPackage e n name s =
              sc_packageDidExecute e n name (snd (evaluate_source e name s)))"
proof -
  let ?parts = "parts_for (PACKAGE_MODE e)"
  note ex = evaluate_source_executed [OF assms, of e]
  have normal: "executed (trace (snd (evaluate_source e name s))) =
            executed (trace s) @ [ot @ '';'' @ mo @ '';'' @ co @ '';'' @ vi]"
    if "flag_set (PACKAGE_MODE e) PACKAGE_MODE_NORMAL"
      "map_of src ''other'' = Some ot" "ot \<noteq> []" "map_of src ''models'' = Some mo" "mo \<noteq> []"
      "map_of src ''controllers'' = Some co" "co \<noteq> []" "map_of src ''views'' = Some vi" "vi \<noteq> []"
    using that ex(1) by (simp add: parts_for_normal)
  have other: "\<exists>rest. executed (trace (snd (evaluate_source e name s))) =
                    executed (trace s) @ [ot @ rest]"
    if "''other'' \<in> set ?parts" "map_of src ''other'' = Some ot" "ot \<noteq> []"
  proof -
    from parts_for_other_first [OF that(1)] obtain rest where "?parts = ''other'' # rest" ..
    with that(2,3) ex(1) show ?thesis
      by (simp add: joined_Cons)
  qed
  have cont: "sc_evaluateJavaScriptForPackage e n name s =
              sc_packageDidExecute e n name (snd (evaluate_source e name s))"
    if "payloads ?parts src \<noteq> []"
    using that ex(2) by (cases "evaluate_source e name s") simp
  from ex(1) parts_for_fixed_order [of "PACKAGE_MODE e"] normal other cont
  show ?thesis by blast
qed

theorem evaluate_fixed_order_witness:
  "executed (trace (snd (evaluate_source quiet ''A''
      \<lparr>manifest = [(''A'', fresh\<lparr>source := Some [(''views'', ''v()''), (''models'', ''m()''),
                                                  (''other'', ''o()''), (''controllers'', ''c()'')]\<rparr>)],
       trace = []\<rparr>)))
     = [''o();m();c();v()'']"
proof -
  let ?src = "[(''views'', ''v()''), (''models'', ''m()''), (''other'', ''o()''),
               (''controllers'', ''c()'')]"
  let ?p = "fresh\<lparr>source := Some ?src\<rparr>"
  let ?s = "\<lparr>manifest = [(''A'', ?p)], trace = []\<rparr>"
  have h: "lookup ?s ''A'' = Some ?p" "\<not> isExecuted ?p" "source ?p = Some ?src"
    by (simp_all add: lookup_def fresh_def)
  have f: "flag_set (PACKAGE_MODE quiet) PACKAGE_MODE_NORMAL"
    by (simp add: flag_set_def quiet_def PACKAGE_MODE_NORMAL_def)
  have "flag_set (PACKAGE_MODE quiet) PACKAGE_MODE_NORMAL
            \<and> map_of ?src ''other'' = Some ''o()'' \<and> ''o()'' \<noteq> []
            \<and> map_of ?src ''models'' = Some ''m()'' \<and> ''m()'' \<noteq> []
            \<and> map_of ?src ''controllers'' = Some ''c()'' \<and> ''c()'' \<noteq> []
            \<and> map_of ?src ''views'' = Some ''v()'' \<and> ''v()'' \<noteq> [] \<longrightarrow>
          executed (trace (snd (evaluate_source quiet ''A'' ?s))) =
            executed (trace ?s) @ [''o()'' @ '';'' @ ''m()'' @ '';'' @ ''c()'' @ '';'' @ ''v()'']"
    using evaluate_fixed_order [OF h, of quiet "''o()''" "''m()''" "''c()''" "''v()''" 0]
    by (elim conjE)
  with f show ?thesis by simp
qed

section \<open>The notification of a package that failed to evaluate\<close>

lemma same_core_refl [simp]: "same_core p p"
  by (simp add: same_core_def)

lemma same_core_trans: "same_core p q \<Longrightarrow> same_core q r \<Longrightarrow> same_core p r"
  by (cases p, cases q, cases r) (simp add: same_core_def)

lemma same_core_fields:
  assumes "same_core p q"
  shows "source q = source p" "isExecuted q = isExecuted p"
    "didFailToEvaluate q = didFailToEvaluate p" "dependencies q = dependencies p"
    "isReady q = isReady p" "dependents q = dependents p" "isLoaded q = isLoaded p"
  using assms by (cases p, cases q, simp add: same_core_def)+

lemma didExecute_step_failed:
  "didExecute_step e name True d s =
     (case lookup s d of
        None \<Rightarrow> (Throw (DependentNotFound d name), s)
      | Some q \<Rightarrow>
          (Return False,
           if waiting_on name q then
             modify d
               (\<lambda>p. p\<lparr>failedDependencies :=
                         Some ((case failedDependencies p of None \<Rightarrow> [] | Some fs \<Rightarrow> fs)
                               @ [name]),
                       doNotExecute := True\<rparr>) s
           else if dependencies q = None then
             log_warn e ''_sc_packageDidExecute: dependent marked as not having dependencies'' d s
           else if isReady q then
             log_warn e ''_sc_packageDidExecute: dependent marked as ready'' d s
           else
             log_warn e ''_sc_packageDidExecute: dependent does not depend on package'' d s))"
  by (auto simp: didExecute_step_def waiting_on_def declared_def split: option.splits)

text \<open>What the loop over the dependents does when the package failed: no fuel is used.\<close>

lemma didExecute_loop_failed:
  "(fst (didExecute_loop e n name True ds s) = Return ()
      \<or> (\<exists>d. fst (didExecute_loop e n name True ds s) = Throw (DependentNotFound d name)))
   \<and> ((\<forall>d \<in> set ds. lookup s d \<noteq> None) \<longrightarrow>
        fst (didExecute_loop e n name True ds s) = Return ())
   \<and> executed (trace (snd (didExecute_loop e n name True ds s))) = executed (trace s)
   \<and> invocations (trace (snd (didExecute_loop e n name True ds s))) = invocations (trace s)
   \<and> (\<forall>k. rel_option same_core (lookup s k) (lookup (snd (didExecute_loop e n name True ds s)) k))
   \<and> (\<forall>k q. lookup s k = Some q \<and> poisoned_by name q \<longrightarrow>
        (\<exists>q'. lookup (snd (didExecute_loop e n name True ds s)) k = Some q' \<and> poisoned_by name q'))
   \<and> ((\<forall>d \<in> set ds. lookup s d \<noteq> None) \<longrightarrow>
        (\<forall>d \<in> set ds. \<forall>q. lookup s d = Some q \<and> waiting_on name q \<longrightarrow>
           (\<exists>q'. lookup (snd (didExecute_loop e n name True ds s)) d = Some q'
                 \<and> poisoned_by name q')))"
proof (induction ds arbitrary: s)
  case Nil
  show ?case by (simp add: option.rel_refl)
next
  case (Cons d ds)
  show ?case
  proof (cases "lookup s d")
    case None
    then show ?thesis
      by (simp add: didExecute_step_failed option.rel_refl)
  next
    case (Some q)
    let ?poison = "\<lambda>p. p\<lparr>failedDependencies :=
                         Some ((case failedDependencies p of None \<Rightarrow> [] | Some fs \<Rightarrow> fs)
                               @ [name]),
                       doNotExecute := True\<rparr>"
    obtain s1 where step: "didExecute_step e name True d s = (Return False, s1)"
      and tr: "executed (trace s1) = executed (trace s)"
              "invocations (trace s1) = invocations (trace s)"
      and lk: "\<And>k. lookup s1 k =
                 (if k = d \<and> waiting_on name q then Some (?poison q) else lookup s k)"
      using Some by (auto simp: didExecute_step_failed lookup_modify)
    have unfold: "didExecute_loop e n name True (d # ds) s = didExecute_loop e n name True ds s1"
      using step by simp
    let ?s' = "snd (didExecute_loop e n name True ds s1)"
    note IH = Cons.IH [of s1]
    have core1: "rel_option same_core (lookup s k) (lookup s1 k)" for k
      using Some by (cases "lookup s k") (auto simp: lk same_core_def)
    have core: "rel_option same_core (lookup s k) (lookup ?s' k)" for k
    proof -
      from IH have "rel_option same_core (lookup s1 k) (lookup ?s' k)" by blast
      with core1 [of k] show ?thesis
        by (cases "lookup s k"; cases "lookup s1 k"; cases "lookup ?s' k")
           (auto intro: same_core_trans)
    qed
    have pres1: "\<exists>q'. lookup s1 k = Some q' \<and> poisoned_by name q'"
      if "lookup s k = Some r" "poisoned_by name r" for k r
      using that Some by (auto simp: lk poisoned_by_def split: option.splits)
    have pres: "\<exists>q'. lookup ?s' k = Some q' \<and> poisoned_by name q'"
      if "lookup s k = Some r" "poisoned_by name r" for k r
    proof -
      from pres1 [OF that] obtain q1 where "lookup s1 k = Some q1" "poisoned_by name q1"
        by blast
      with IH show ?thesis by blast
    qed
    have present: "\<forall>x \<in> set ds. lookup s1 x \<noteq> None" if "\<forall>x \<in> set (d # ds). lookup s x \<noteq> None"
      using that by (auto simp: lk)
    have poisoned: "\<exists>q'. lookup ?s' x = Some q' \<and> poisoned_by name q'"
      if all: "\<forall>x \<in> set (d # ds). lookup s x \<noteq> None"
        and x: "x \<in> set (d # ds)" "lookup s x = Some r" "waiting_on name r" for x r
    proof (cases "x = d")
      case True
      with x Some have "lookup s1 d = Some (?poison q)" "poisoned_by name (?poison q)"
        by (auto simp: lk poisoned_by_def)
      with IH True show ?thesis by blast
    next
      case False
      with x have xin: "x \<in> set ds" and l1: "lookup s1 x = Some r"
        by (auto simp: lk)
      from IH present [OF all] xin l1 x(3) show ?thesis by blast
    qed
    have ret: "fst (didExecute_loop e n name True ds s1) = Return ()"
      if "\<forall>x \<in> set (d # ds). lookup s x \<noteq> None"
      using IH present [OF that] by blast
    from IH have r0: "fst (didExecute_loop e n name True ds s1) = Return ()
      \<or> (\<exists>d. fst (didExecute_loop e n name True ds s1) = Throw (DependentNotFound d name))"
      and e0: "executed (trace ?s') = executed (trace s1)"
      and i0: "invocations (trace ?s') = invocations (trace s1)"
      by blast+
    have c2: "(\<forall>x \<in> set (d # ds). lookup s x \<noteq> None) \<longrightarrow>
                fst (didExecute_loop e n name True ds s1) = Return ()"
      using ret by blast
    have c3: "executed (trace ?s') = executed (trace s)"
      using e0 tr by simp
    have c4: "invocations (trace ?s') = invocations (trace s)"
      using i0 tr by simp
    have c5: "\<forall>k. rel_option same_core (lookup s k) (lookup ?s' k)"
      using core by blast
    have c6: "\<forall>k q. lookup s k = Some q \<and> poisoned_by name q \<longrightarrow>
                (\<exists>q'. lookup ?s' k = Some q' \<and> poisoned_by name q')"
      using pres by blast
    have c7: "(\<forall>x \<in> set (d # ds). lookup s x \<noteq> None) \<longrightarrow>
                (\<forall>x \<in> set (d # ds). \<forall>q. lookup s x = Some q \<and> waiting_on name q \<longrightarrow>
                   (\<exists>q'. lookup ?s' x = Some q' \<and> poisoned_by name q'))"
      using poisoned by blast
    show ?thesis
      unfolding unfold
      by (intro conjI) (rule r0 c2 c3 c4 c5 c6 c7)+
  qed
qed


lemma modify_id: "lookup s name = Some q \<Longrightarrow> f q = q \<Longrightarrow> modify name f s = s"
  by (simp add: modify_def lookup_def update_triv)

lemma didExecute_failed:
  assumes p: "lookup s name = Some p" and failed: "didFailToEvaluate p"
  shows "(fst (sc_packageDidExecute e n name s) = Return ()
            \<or> (\<exists>d. fst (sc_packageDidExecute e n name s) = Throw (DependentNotFound d name)))
       \<and> ((\<forall>d \<in> set (registered p). lookup s d \<noteq> None) \<longrightarrow>
            fst (sc_packageDidExecute e n name s) = Return ())
       \<and> executed (trace (snd (sc_packageDidExecute e n name s))) = executed (trace s)
       \<and> invocations (trace (snd (sc_packageDidExecute e n name s))) =
           invocations (trace s) @ queued p
       \<and> (\<forall>k. rel_option same_core (lookup s k) (lookup (snd (sc_packageDidExecute e n name s)) k))
       \<and> ((\<forall>d \<in> set (registered p). lookup s d \<noteq> None) \<longrightarrow>
            (\<forall>d \<in> set (registered p). \<forall>q. lookup s d = Some q \<and> waiting_on name q \<longrightarrow>
               (\<exists>q'. lookup (snd (sc_packageDidExecute e n name s)) d = Some q'
                     \<and> poisoned_by name q')))"
proof -
  let ?s0 = "log_info e ''_sc_packageDidExecute'' name s"
  let ?s2 = "snd (sc_invokeCallbacksForPackage e name ?s0)"
  have p0: "lookup ?s0 name = Some p" using p by simp
  have lk2: "lookup ?s2 k = (if k = name then Some (p\<lparr>callbacks := None\<rparr>) else lookup s k)" for k
    using invokeCallbacks_known(5) [OF p0, of e k] by simp
  have ex2: "executed (trace ?s2) = executed (trace s)"
    using invokeCallbacks_known(4) [OF p0, of e] by simp
  have in2: "invocations (trace ?s2) = invocations (trace s) @ queued p"
    using invokeCallbacks_known(3) [OF p0, of e] by simp
  have core2: "rel_option same_core (lookup s k) (lookup ?s2 k)" for k
    using p by (cases "lookup s k") (auto simp: lk2 same_core_def)
  have wait2: "\<exists>q2. lookup ?s2 d = Some q2 \<and> waiting_on name q2"
    if "lookup s d = Some q" "waiting_on name q" for d q
    using that p by (auto simp: lk2 waiting_on_def declared_def)
  have present2: "lookup ?s2 d \<noteq> None" if "lookup s d \<noteq> None" for d
    using that by (simp add: lk2)
  show ?thesis
  proof (cases "registered p = []")
    case True
    then have "sc_packageDidExecute e n name s = (Return (), ?s2)"
      using p failed
      by (auto simp: didExecute_head_def Let_def registered_def split: option.splits list.splits)
    with True ex2 in2 core2 show ?thesis by simp
  next
    case False
    then obtain ds where ds: "dependents p = Some ds" "ds \<noteq> []" "registered p = ds"
      by (auto simp: registered_def split: option.splits)
    have unfold: "sc_packageDidExecute e n name s = didExecute_loop e n name True ds ?s2"
      using p failed ds(1,2)
      by (cases ds) (simp_all add: didExecute_head_def Let_def)
    note L = didExecute_loop_failed [of e n name ds ?s2]
    let ?s' = "snd (didExecute_loop e n name True ds ?s2)"
    have c1: "fst (didExecute_loop e n name True ds ?s2) = Return ()
            \<or> (\<exists>d. fst (didExecute_loop e n name True ds ?s2) = Throw (DependentNotFound d name))"
      using L by blast
    have c2: "(\<forall>d \<in> set (registered p). lookup s d \<noteq> None) \<longrightarrow>
            fst (didExecute_loop e n name True ds ?s2) = Return ()"
      using L present2 ds(3) by blast
    have c3: "executed (trace ?s') = executed (trace s)"
      using L ex2 by simp
    have c4: "invocations (trace ?s') = invocations (trace s) @ queued p"
      using L in2 by simp
    have c5: "\<forall>k. rel_option same_core (lookup s k) (lookup ?s' k)"
    proof
      fix k
      from L have "rel_option same_core (lookup ?s2 k) (lookup ?s' k)" by blast
      with core2 [of k] show "rel_option same_core (lookup s k) (lookup ?s' k)"
        by (cases "lookup s k"; cases "lookup ?s2 k"; cases "lookup ?s' k")
           (auto intro: same_core_trans)
    qed
    have c6: "(\<forall>d \<in> set (registered p). lookup s d \<noteq> None) \<longrightarrow>
            (\<forall>d \<in> set (registered p). \<forall>q. lookup s d = Some q \<and> waiting_on name q \<longrightarrow>
               (\<exists>q'. lookup ?s' d = Some q' \<and> poisoned_by name q'))"
    proof (intro impI ballI allI)
      fix d q
      assume all: "\<forall>d \<in> set (registered p). lookup s d \<noteq> None"
        and d: "d \<in> set (registered p)" and q: "lookup s d = Some q \<and> waiting_on name q"
      from all present2 ds(3) have "\<forall>d \<in> set ds. lookup ?s2 d \<noteq> None" by blast
      moreover from wait2 q obtain q2 where "lookup ?s2 d = Some q2" "waiting_on name q2"
        by blast
      ultimately show "\<exists>q'. lookup ?s' d = Some q' \<and> poisoned_by name q'"
        using L d ds(3) by blast
    qed
    show ?thesis
      unfolding unfold
      by (intro conjI) (rule c1 c2 c3 c4 c5 c6)+
  qed
qed

lemma evaluate_source_failed:
  assumes p: "lookup s name = Some p" and ne: "\<not> isExecuted p" and src: "source p = Some src"
    and code: "payloads (parts_for (PACKAGE_MODE e)) src \<noteq> []"
    and throws: "sink_throws e (trace (log_info e ''_sc_evaluateJavaScriptForPackage'' name s))
                   (joined (payloads (parts_for (PACKAGE_MODE e)) src))"
  shows "fst (evaluate_source e name s) = True"
    and "lookup (snd (evaluate_source e name s)) k =
           (if k = name
            then Some (p\<lparr>source := Some (snd (accumulate (parts_for (PACKAGE_MODE e)) [] src)),
                         isExecuted := False, didFailToEvaluate := True\<rparr>)
            else lookup s k)"
    and "invocations (trace (snd (evaluate_source e name s))) = invocations (trace s)"
proof -
  let ?parts = "parts_for (PACKAGE_MODE e)"
  obtain c src' where acc: "accumulate ?parts [] src = (c, src')"
    by (cases "accumulate ?parts [] src")
  have c: "c = joined (payloads ?parts src)"
    using accumulate_code [OF distinct_parts_for, of "PACKAGE_MODE e" "[]" src] acc code by simp
  have cne: "c \<noteq> []"
    unfolding c using joined_empty_iff [of "payloads ?parts src"] payloads_nonempty code
    by blast
  show "fst (evaluate_source e name s) = True"
    using p ne src acc cne by (simp add: evaluate_source_def Let_def)
  show "lookup (snd (evaluate_source e name s)) k =
           (if k = name
            then Some (p\<lparr>source := Some (snd (accumulate ?parts [] src)),
                         isExecuted := False, didFailToEvaluate := True\<rparr>)
            else lookup s k)"
    using p ne src acc cne throws c
    by (simp add: evaluate_source_def Let_def lookup_modify)
  show "invocations (trace (snd (evaluate_source e name s))) = invocations (trace s)"
    using p ne src acc cne throws c
    by (simp add: evaluate_source_def Let_def invocations_append)
qed

section \<open>C5: an evaluation that throws\<close>

text \<open>
  Claim C5. Take a package that is not executed and whose selected parts hold code, and
  let the execution sink raise on that code. Then
  \<^verbatim>\<open>_sc_evaluateJavaScriptForPackage\<close> does not propagate the error: it returns
  normally, unless the notification itself throws because a registered dependent is
  missing from the manifest. It is the notification \<^verbatim>\<open>_sc_packageDidExecute\<close> run on
  the state in which the record has \<^verbatim>\<open>didFailToEvaluate\<close> set and
  \<^verbatim>\<open>isExecuted\<close> unset, and both flags are still so at the end. The queued callbacks
  of the package are called, and when all registered dependents are in the manifest,
  every one that is waiting on the package is poisoned. No fuel is needed.
\<close>

theorem evaluate_throw_is_caught:
  assumes "lookup s name = Some p" and "\<not> isExecuted p" and "source p = Some src"
    and "payloads (parts_for (PACKAGE_MODE e)) src \<noteq> []"
    and "sink_throws e (trace (log_info e ''_sc_evaluateJavaScriptForPackage'' name s))
           (joined (payloads (parts_for (PACKAGE_MODE e)) src))"
  shows "(fst (sc_evaluateJavaScriptForPackage e n name s) = Return ()
            \<or> (\<exists>d. fst (sc_evaluateJavaScriptForPackage e n name s) =
                     Throw (DependentNotFound d name)))
       \<and> (\<exists>q. lookup (snd (evaluate_source e name s)) name = Some q
              \<and> didFailToEvaluate q \<and> \<not> isExecuted q)
       \<and> sc_evaluateJavaScriptForPackage e n name s =
           sc_packageDidExecute e n name (snd (evaluate_source e name s))
       \<and> (\<exists>q. lookup (snd (sc_evaluateJavaScriptForPackage e n name s)) name = Some q
              \<and> didFailToEvaluate q \<and> \<not> isExecuted q)
       \<and> invocations (trace (snd (sc_evaluateJavaScriptForPackage e n name s))) =
           invocations (trace s) @ queued p
       \<and> ((\<forall>d \<in> set (registered p). lookup s d \<noteq> None) \<longrightarrow>
            fst (sc_evaluateJavaScriptForPackage e n name s) = Return ()
            \<and> (\<forall>d \<in> set (registered p). \<forall>q. lookup s d = Some q \<and> waiting_on name q \<longrightarrow>
                 (\<exists>q'. lookup (snd (sc_evaluateJavaScriptForPackage e n name s)) d = Some q'
                       \<and> poisoned_by name q')))"
proof -
  let ?s1 = "snd (evaluate_source e name s)"
  let ?p1 = "p\<lparr>source := Some (snd (accumulate (parts_for (PACKAGE_MODE e)) [] src)),
               isExecuted := False, didFailToEvaluate := True\<rparr>"
  note ES = evaluate_source_failed [OF assms]
  have l1: "lookup ?s1 k = (if k = name then Some ?p1 else lookup s k)" for k
    using ES(2) [of k] .
  have p1: "lookup ?s1 name = Some ?p1" by (simp add: l1)
  have f1: "didFailToEvaluate ?p1" by simp
  have eq: "sc_evaluateJavaScriptForPackage e n name s = sc_packageDidExecute e n name ?s1"
    using ES(1) by (cases "evaluate_source e name s") simp
  note D = didExecute_failed [OF p1 f1, of e n]
  let ?s' = "snd (sc_packageDidExecute e n name ?s1)"
  have c1: "fst (sc_packageDidExecute e n name ?s1) = Return ()
            \<or> (\<exists>d. fst (sc_packageDidExecute e n name ?s1) = Throw (DependentNotFound d name))"
    using D by blast
  have c2: "\<exists>q. lookup ?s1 name = Some q \<and> didFailToEvaluate q \<and> \<not> isExecuted q"
    using p1 by simp
  have c4: "\<exists>q. lookup ?s' name = Some q \<and> didFailToEvaluate q \<and> \<not> isExecuted q"
  proof -
    from D have "rel_option same_core (lookup ?s1 name) (lookup ?s' name)" by blast
    with p1 obtain q where q: "lookup ?s' name = Some q" "same_core ?p1 q"
      by (cases "lookup ?s' name") auto
    from same_core_fields(2,3) [OF q(2)] q(1) show ?thesis by simp
  qed
  have c5: "invocations (trace ?s') = invocations (trace s) @ queued p"
    using D ES(3) by (simp add: queued_def)
  have present: "\<forall>d \<in> set (registered ?p1). lookup ?s1 d \<noteq> None"
    if "\<forall>d \<in> set (registered p). lookup s d \<noteq> None"
    using that by (auto simp: l1 registered_def)
  have c6: "(\<forall>d \<in> set (registered p). lookup s d \<noteq> None) \<longrightarrow>
            fst (sc_packageDidExecute e n name ?s1) = Return ()
            \<and> (\<forall>d \<in> set (registered p). \<forall>q. lookup s d = Some q \<and> waiting_on name q \<longrightarrow>
                 (\<exists>q'. lookup ?s' d = Some q' \<and> poisoned_by name q'))"
  proof (intro impI conjI ballI allI)
    assume all: "\<forall>d \<in> set (registered p). lookup s d \<noteq> None"
    from D present [OF all] show "fst (sc_packageDidExecute e n name ?s1) = Return ()"
      by blast
  next
    fix d q
    assume all: "\<forall>d \<in> set (registered p). lookup s d \<noteq> None"
      and d: "d \<in> set (registered p)" and q: "lookup s d = Some q \<and> waiting_on name q"
    from d have d1: "d \<in> set (registered ?p1)" by (simp add: registered_def)
    from q assms(1) have "lookup ?s1 d = Some (if d = name then ?p1 else q)"
      "waiting_on name (if d = name then ?p1 else q)"
      by (auto simp: l1 waiting_on_def declared_def)
    then obtain q1 where q1: "lookup ?s1 d = Some q1" "waiting_on name q1"
      by blast
    from D present [OF all] d1 q1
    show "\<exists>q'. lookup ?s' d = Some q' \<and> poisoned_by name q'" by blast
  qed
  show ?thesis
    unfolding eq
    by (intro conjI) (rule c1 c2 c4 c5 c6 refl)+
qed

theorem evaluate_throw_is_caught_witness:
  "fst (sc_evaluateJavaScriptForPackage raising 0 ''A''
      \<lparr>manifest = [(''A'', fresh\<lparr>source := Some [(''other'', ''boom()'')],
                                 dependents := Some [''B'']\<rparr>),
                   (''B'', fresh\<lparr>dependencies := Some [''A'']\<rparr>)],
       trace = []\<rparr>) = Return ()
   \<and> lookup (snd (sc_evaluateJavaScriptForPackage raising 0 ''A''
      \<lparr>manifest = [(''A'', fresh\<lparr>source := Some [(''other'', ''boom()'')],
                                 dependents := Some [''B'']\<rparr>),
                   (''B'', fresh\<lparr>dependencies := Some [''A'']\<rparr>)],
       trace = []\<rparr>)) ''A''
     = Some (fresh\<lparr>source := Some [], dependents := Some [''B''], didFailToEvaluate := True\<rparr>)
   \<and> lookup (snd (sc_evaluateJavaScriptForPackage raising 0 ''A''
      \<lparr>manifest = [(''A'', fresh\<lparr>source := Some [(''other'', ''boom()'')],
                                 dependents := Some [''B'']\<rparr>),
                   (''B'', fresh\<lparr>dependencies := Some [''A'']\<rparr>)],
       trace = []\<rparr>)) ''B''
     = Some (fresh\<lparr>dependencies := Some [''A''], doNotExecute := True,
                   failedDependencies := Some [''A'']\<rparr>)"
proof -
  let ?pa = "fresh\<lparr>source := Some [(''other'', ''boom()'')], dependents := Some [''B'']\<rparr>"
  let ?pb = "fresh\<lparr>dependencies := Some [''A'']\<rparr>"
  let ?s = "\<lparr>manifest = [(''A'', ?pa), (''B'', ?pb)], trace = []\<rparr>"
  have h: "lookup ?s ''A'' = Some ?pa" "\<not> isExecuted ?pa"
    "source ?pa = Some [(''other'', ''boom()'')]"
    by (simp_all add: lookup_def fresh_def)
  have parts: "parts_for (PACKAGE_MODE raising) = [''other'', ''models'', ''controllers'', ''views'']"
    by (simp add: parts_for_def flag_set_def raising_def quiet_def PACKAGE_MODE_NORMAL_def)
  have c: "payloads (parts_for (PACKAGE_MODE raising)) [(''other'', ''boom()'')] \<noteq> []"
    by (simp add: parts)
  have t: "sink_throws raising
             (trace (log_info raising ''_sc_evaluateJavaScriptForPackage'' ''A'' ?s))
             (joined (payloads (parts_for (PACKAGE_MODE raising)) [(''other'', ''boom()'')]))"
    by (simp add: raising_def)
  have run: "sc_evaluateJavaScriptForPackage raising 0 ''A'' ?s =
               sc_packageDidExecute raising 0 ''A'' (snd (evaluate_source raising ''A'' ?s))"
    using evaluate_throw_is_caught [OF h c t, of 0] by (elim conjE)
  have ev: "evaluate_source raising ''A'' ?s =
              (True, \<lparr>manifest = [(''A'', ?pa\<lparr>source := Some [], didFailToEvaluate := True\<rparr>),
                                 (''B'', ?pb)],
                     trace = [Exec ''boom()'',
                              Logged WARN ''Caught error when processing package source'' ''A'']\<rparr>)"
    by (simp add: evaluate_source_def Let_def parts_for_def flag_set_def
        PACKAGE_MODE_NORMAL_def lookup_def modify_def log_info_def
        log_warn_def warn_def emit_def raising_def quiet_def fresh_def AList.delete_eq)
  show ?thesis
    unfolding run ev
    by (simp add: didExecute_head_def sc_invokeCallbacksForPackage_def didExecute_step_def
        Let_def lookup_def modify_def log_info_def log_warn_def raising_def quiet_def fresh_def)
qed

section \<open>C9: the source is consumed before it is executed\<close>

lemma evaluate_source_deletes:
  assumes p: "lookup s name = Some p" and ne: "\<not> isExecuted p" and src: "source p = Some src"
  shows "map_option source (lookup (snd (evaluate_source e name s)) name) =
           Some (Some (snd (accumulate (parts_for (PACKAGE_MODE e)) [] src)))"
  using assms
  by (cases "accumulate (parts_for (PACKAGE_MODE e)) [] src")
     (simp add: evaluate_source_def Let_def lookup_modify)

lemma evaluate_source_nothing_left:
  assumes q: "lookup s name = Some q" and ne: "\<not> isExecuted q" and src: "source q = Some src'"
    and gone: "\<forall>part \<in> set (parts_for (PACKAGE_MODE e)).
                 map_of src' part = None \<or> map_of src' part = Some []"
  shows "evaluate_source e name s =
           (False,
            log_warn e ''_sc_evaluateJavaScriptForPackage: no package source found'' name
              (log_info e ''_sc_evaluateJavaScriptForPackage'' name s))"
proof -
  let ?s0 = "log_info e ''_sc_evaluateJavaScriptForPackage'' name s"
  have q0: "lookup ?s0 name = Some q" using q by simp
  have m1: "modify name (\<lambda>p. p\<lparr>source := Some src'\<rparr>) ?s0 = ?s0"
    using src by (intro modify_id [OF q0]) simp
  have m2: "modify name (\<lambda>p. p\<lparr>isExecuted := False\<rparr>) ?s0 = ?s0"
    using ne by (intro modify_id [OF q0]) simp
  show ?thesis
    using q ne src accumulate_nothing [OF gone, of "[]"]
    by (simp add: evaluate_source_def Let_def m1 m2)
qed

text \<open>
  Claim C9. Take a package that is not executed and has a source object. After the
  accumulation every selected part is gone from the source object of the record (a part
  that held code is deleted; a part without code had nothing to run), whether or not the
  execution then raises. When it raises, the state that
  \<^verbatim>\<open>_sc_evaluateJavaScriptForPackage\<close> leaves behind is one in which another
  evaluation of the same package, with the same mode and any fuel, finds no code: it
  returns normally, hands nothing to the execution sink, calls no callback and leaves
  the manifest as it is.
\<close>

theorem source_consumed_before_execution:
  assumes "lookup s name = Some p" and "\<not> isExecuted p" and "source p = Some src"
  shows "(\<exists>src'. map_option source (lookup (snd (evaluate_source e name s)) name)
                   = Some (Some src')
              \<and> (\<forall>part \<in> set (parts_for (PACKAGE_MODE e)).
                    map_of src' part = None \<or> map_of src' part = Some [])
              \<and> (\<forall>part \<in> set (parts_for (PACKAGE_MODE e)).
                    \<forall>c. map_of src part = Some c \<and> c \<noteq> [] \<longrightarrow> map_of src' part = None))
       \<and> (payloads (parts_for (PACKAGE_MODE e)) src \<noteq> []
            \<and> sink_throws e (trace (log_info e ''_sc_evaluateJavaScriptForPackage'' name s))
                 (joined (payloads (parts_for (PACKAGE_MODE e)) src)) \<longrightarrow>
          fst (sc_evaluateJavaScriptForPackage e m name
                 (snd (sc_evaluateJavaScriptForPackage e n name s))) = Return ()
          \<and> manifest (snd (sc_evaluateJavaScriptForPackage e m name
                 (snd (sc_evaluateJavaScriptForPackage e n name s))))
              = manifest (snd (sc_evaluateJavaScriptForPackage e n name s))
          \<and> executed (trace (snd (sc_evaluateJavaScriptForPackage e m name
                 (snd (sc_evaluateJavaScriptForPackage e n name s)))))
              = executed (trace (snd (sc_evaluateJavaScriptForPackage e n name s)))
          \<and> invocations (trace (snd (sc_evaluateJavaScriptForPackage e m name
                 (snd (sc_evaluateJavaScriptForPackage e n name s)))))
              = invocations (trace (snd (sc_evaluateJavaScriptForPackage e n name s))))"
proof -
  let ?parts = "parts_for (PACKAGE_MODE e)"
  let ?src' = "snd (accumulate ?parts [] src)"
  have gone: "\<forall>part \<in> set ?parts. map_of ?src' part = None \<or> map_of ?src' part = Some []"
    by (simp add: accumulate_source)
  have deleted: "\<forall>part \<in> set ?parts. \<forall>c. map_of src part = Some c \<and> c \<noteq> [] \<longrightarrow>
                   map_of ?src' part = None"
    by (simp add: accumulate_source)
  have first: "\<exists>src'. map_option source (lookup (snd (evaluate_source e name s)) name)
                   = Some (Some src')
              \<and> (\<forall>part \<in> set ?parts. map_of src' part = None \<or> map_of src' part = Some [])
              \<and> (\<forall>part \<in> set ?parts.
                    \<forall>c. map_of src part = Some c \<and> c \<noteq> [] \<longrightarrow> map_of src' part = None)"
    using evaluate_source_deletes [OF assms, of e] gone deleted by blast
  have second:
    "fst (sc_evaluateJavaScriptForPackage e m name
            (snd (sc_evaluateJavaScriptForPackage e n name s))) = Return ()
     \<and> manifest (snd (sc_evaluateJavaScriptForPackage e m name
            (snd (sc_evaluateJavaScriptForPackage e n name s))))
         = manifest (snd (sc_evaluateJavaScriptForPackage e n name s))
     \<and> executed (trace (snd (sc_evaluateJavaScriptForPackage e m name
            (snd (sc_evaluateJavaScriptForPackage e n name s)))))
         = executed (trace (snd (sc_evaluateJavaScriptForPackage e n name s)))
     \<and> invocations (trace (snd (sc_evaluateJavaScriptForPackage e m name
            (snd (sc_evaluateJavaScriptForPackage e n name s)))))
         = invocations (trace (snd (sc_evaluateJavaScriptForPackage e n name s)))"
    if code: "payloads ?parts src \<noteq> []"
      and throws: "sink_throws e (trace (log_info e ''_sc_evaluateJavaScriptForPackage'' name s))
                     (joined (payloads ?parts src))"
  proof -
    let ?s1 = "snd (evaluate_source e name s)"
    let ?p1 = "p\<lparr>source := Some ?src', isExecuted := False, didFailToEvaluate := True\<rparr>"
    note ES = evaluate_source_failed [OF assms code throws]
    have p1: "lookup ?s1 name = Some ?p1" using ES(2) [of name] by simp
    have eq: "sc_evaluateJavaScriptForPackage e n name s = sc_packageDidExecute e n name ?s1"
      using ES(1) by (cases "evaluate_source e name s") simp
    let ?s' = "snd (sc_packageDidExecute e n name ?s1)"
    have f1: "didFailToEvaluate ?p1" by simp
    from didExecute_failed [OF p1 f1, of e n]
    have "rel_option same_core (lookup ?s1 name) (lookup ?s' name)" by blast
    with p1 obtain q where q: "lookup ?s' name = Some q" "same_core ?p1 q"
      by (cases "lookup ?s' name") auto
    have qs: "source q = Some ?src'" "\<not> isExecuted q"
      using same_core_fields(1,2) [OF q(2)] by simp_all
    have "evaluate_source e name ?s' =
           (False,
            log_warn e ''_sc_evaluateJavaScriptForPackage: no package source found'' name
              (log_info e ''_sc_evaluateJavaScriptForPackage'' name ?s'))"
      using evaluate_source_nothing_left [OF q(1) qs(2) qs(1) gone] .
    then show ?thesis
      unfolding eq by simp
  qed
  from first second show ?thesis by blast
qed

theorem source_consumed_before_execution_witness:
  "map_option source (lookup (snd (evaluate_source raising ''A''
      \<lparr>manifest = [(''A'', fresh\<lparr>source := Some [(''views'', ''v()''), (''other'', ''boom()'')]\<rparr>)],
       trace = []\<rparr>)) ''A'') = Some (Some [])
   \<and> snd (sc_evaluateJavaScriptForPackage raising 0 ''A''
      \<lparr>manifest = [(''A'', fresh\<lparr>source := Some [(''views'', ''v()''), (''other'', ''boom()'')]\<rparr>)],
       trace = []\<rparr>)
     = \<lparr>manifest = [(''A'', fresh\<lparr>source := Some [], didFailToEvaluate := True\<rparr>)],
        trace = [Exec ''boom();v()'',
                 Logged WARN ''Caught error when processing package source'' ''A'']\<rparr>
   \<and> sc_evaluateJavaScriptForPackage raising 0 ''A''
        \<lparr>manifest = [(''A'', fresh\<lparr>source := Some [], didFailToEvaluate := True\<rparr>)],
         trace = [Exec ''boom();v()'',
                  Logged WARN ''Caught error when processing package source'' ''A'']\<rparr>
     = (Return (),
        \<lparr>manifest = [(''A'', fresh\<lparr>source := Some [], didFailToEvaluate := True\<rparr>)],
         trace = [Exec ''boom();v()'',
                  Logged WARN ''Caught error when processing package source'' ''A'']\<rparr>)"
proof -
  let ?src = "[(''views'', ''v()''), (''other'', ''boom()'')]"
  let ?p = "fresh\<lparr>source := Some ?src\<rparr>"
  let ?s = "\<lparr>manifest = [(''A'', ?p)], trace = []\<rparr>"
  let ?t = "\<lparr>manifest = [(''A'', fresh\<lparr>source := Some [], didFailToEvaluate := True\<rparr>)],
             trace = [Exec ''boom();v()'',
                      Logged WARN ''Caught error when processing package source'' ''A'']\<rparr>"
  have h: "lookup ?s ''A'' = Some ?p" "\<not> isExecuted ?p" "source ?p = Some ?src"
    by (simp_all add: lookup_def fresh_def)
  have ev: "evaluate_source raising ''A'' ?s = (True, ?t)"
    by (simp add: evaluate_source_def Let_def parts_for_def flag_set_def
        PACKAGE_MODE_NORMAL_def lookup_def modify_def log_info_def
        log_warn_def warn_def emit_def raising_def quiet_def fresh_def AList.delete_eq)
  have step: "sc_evaluateJavaScriptForPackage raising 0 ''A'' ?s =
                sc_packageDidExecute raising 0 ''A'' ?t"
    by (simp add: ev)
  have run: "snd (sc_evaluateJavaScriptForPackage raising 0 ''A'' ?s) = ?t"
    unfolding step
    by (simp add: didExecute_head_def sc_invokeCallbacksForPackage_def
        Let_def lookup_def modify_def log_info_def raising_def quiet_def fresh_def)
  have c: "payloads (parts_for (PACKAGE_MODE raising)) ?src \<noteq> []"
    by (simp add: parts_for_def flag_set_def PACKAGE_MODE_NORMAL_def raising_def quiet_def)
  have t: "sink_throws raising
             (trace (log_info raising ''_sc_evaluateJavaScriptForPackage'' ''A'' ?s))
             (joined (payloads (parts_for (PACKAGE_MODE raising)) ?src))"
    by (simp add: raising_def)
  have again: "fst (sc_evaluateJavaScriptForPackage raising 0 ''A'' ?t) = Return ()
      \<and> manifest (snd (sc_evaluateJavaScriptForPackage raising 0 ''A'' ?t)) = manifest ?t
      \<and> executed (trace (snd (sc_evaluateJavaScriptForPackage raising 0 ''A'' ?t)))
          = executed (trace ?t)"
    using source_consumed_before_execution [OF h, of raising 0 0] c t
    unfolding run by blast
  have quiet_trace: "trace (snd (sc_evaluateJavaScriptForPackage raising 0 ''A'' ?t)) = trace ?t"
    by (simp add: evaluate_source_def Let_def parts_for_def flag_set_def
        PACKAGE_MODE_NORMAL_def lookup_def modify_def log_info_def
        log_warn_def raising_def quiet_def fresh_def)
  have "sc_evaluateJavaScriptForPackage raising 0 ''A'' ?t = (Return (), ?t)"
    using again quiet_trace
    by (cases "sc_evaluateJavaScriptForPackage raising 0 ''A'' ?t") simp
  with ev run show ?thesis by (simp add: lookup_def)
qed

section \<open>C2: what the notification does to a waiting dependent\<close>








section \<open>The dependent of a failed package stays blocked\<close>

lemma blocked_same_manifest: "manifest s' = manifest s \<Longrightarrow> blocked A B s' = blocked A B s"
  by (simp add: blocked_def lookup_def)

lemma blocked_emit [simp]: "blocked A B (emit ev s) = blocked A B s"
  by (rule blocked_same_manifest) simp

lemma blocked_warn [simp]: "blocked A B (warn site n s) = blocked A B s"
  by (rule blocked_same_manifest) simp

lemma blocked_log_info [simp]: "blocked A B (log_info e site n s) = blocked A B s"
  by (rule blocked_same_manifest) simp

lemma blocked_log_warn [simp]: "blocked A B (log_warn e site n s) = blocked A B s"
  by (rule blocked_same_manifest) simp

lemma blocked_modify:
  assumes "blocked A B s"
    and "\<And>a. k = A \<Longrightarrow> lookup s A = Some a \<Longrightarrow> didFailToEvaluate a \<Longrightarrow> \<not> isExecuted a \<Longrightarrow>
           didFailToEvaluate (f a) \<and> \<not> isExecuted (f a)"
    and "\<And>b. k = B \<Longrightarrow> lookup s B = Some b \<Longrightarrow> \<not> isExecuted b \<Longrightarrow> \<not> isReady b \<Longrightarrow>
           A \<in> set (declared b) \<Longrightarrow>
           \<not> isExecuted (f b) \<and> \<not> isReady (f b) \<and> A \<in> set (declared (f b))"
  shows "blocked A B (modify k f s)"
  using assms unfolding blocked_def lookup_modify
  by (cases "k = A"; cases "k = B") auto

lemma blocked_registerCallback:
  "blocked A B s \<Longrightarrow> blocked A B (registerCallbackForPackage e k target m args s)"
  by (auto simp: registerCallbackForPackage_def declared_def split: option.splits
      intro!: blocked_modify)

lemma blocked_invokeCallbacks:
  "blocked A B s \<Longrightarrow> blocked A B (snd (sc_invokeCallbacksForPackage e k s))"
proof (cases "lookup s k")
  case None
  assume "blocked A B s"
  with None show ?thesis by (simp add: sc_invokeCallbacksForPackage_def)
next
  case (Some p)
  assume b: "blocked A B s"
  have "blocked A B (invokeCallbacks_loop e k (queued p) s)"
    using b blocked_same_manifest [of "invokeCallbacks_loop e k (queued p) s" s A B] by simp
  then have "blocked A B (modify k (\<lambda>p. p\<lparr>callbacks := None\<rparr>) (invokeCallbacks_loop e k (queued p) s))"
    by (rule blocked_modify) (simp_all add: declared_def)
  with Some show ?thesis
    by (simp add: sc_invokeCallbacksForPackage_def Let_def queued_def)
qed

lemma blocked_loadJavaScript:
  "blocked A B s \<Longrightarrow> blocked A B (loadJavaScript e k s)"
  by (auto simp: loadJavaScript_def sc_urlForPackage_def declared_def split: option.splits
      intro!: blocked_modify)

lemma blocked_dependenciesMet_loop:
  "blocked A B s \<Longrightarrow> blocked A B (snd (dependenciesMet_loop k ds ready s))"
proof (induction ds arbitrary: ready s)
  case Nil
  then show ?case by simp
next
  case (Cons d ds)
  have "blocked A B (modify k (\<lambda>p. p\<lparr>isReady := False\<rparr>) s)"
    using Cons.prems by (rule blocked_modify) (simp_all add: declared_def)
  with Cons show ?case
    by (auto split: option.splits)
qed

lemma dependenciesMet_True_iff:
  assumes "lookup s name = Some p"
  shows "fst (sc_dependenciesMetForPackage e name s) = Return True \<longleftrightarrow>
           (\<forall>d \<in> set (declared p). \<exists>q. lookup s d = Some q \<and> isExecuted q)"
proof (cases "dependencies p")
  case None
  with assms show ?thesis
    by (simp add: sc_dependenciesMetForPackage_def declared_def)
next
  case (Some ds)
  show ?thesis
  proof (cases ds)
    case Nil
    with Some assms show ?thesis
      by (simp add: sc_dependenciesMetForPackage_def declared_def)
  next
    case (Cons d ds')
    let ?s = "log_info e ''_sc_dependenciesMetForPackage'' name s"
    obtain r s1 where loop: "dependenciesMet_loop name ds True ?s = (r, s1)"
      by (cases "dependenciesMet_loop name ds True ?s")
    have iff: "r = Return True \<longleftrightarrow> (\<forall>d \<in> set ds. \<exists>q. lookup s d = Some q \<and> isExecuted q)"
      using dependenciesMet_loop_True_iff [of name ds True ?s] loop by simp
    have res: "fst (sc_dependenciesMetForPackage e name s) = Return True \<longleftrightarrow> r = Return True"
      using assms Some Cons loop
      by (cases r) (auto simp: sc_dependenciesMetForPackage_def)
    from res iff Some show ?thesis
      by (simp add: declared_def)
  qed
qed

lemma blocked_not_all_executed:
  assumes "blocked A B s" "lookup s B = Some b"
  shows "\<not> (\<forall>d \<in> set (declared b). \<exists>q. lookup s d = Some q \<and> isExecuted q)"
proof
  assume all: "\<forall>d \<in> set (declared b). \<exists>q. lookup s d = Some q \<and> isExecuted q"
  from assms obtain a where a: "lookup s A = Some a" "\<not> isExecuted a" "A \<in> set (declared b)"
    by (auto simp: blocked_def)
  from all a(3) obtain q where "lookup s A = Some q" "isExecuted q" by blast
  with a(1,2) show False by simp
qed

lemma blocked_dependenciesMet:
  assumes b: "blocked A B s"
  shows "blocked A B (snd (sc_dependenciesMetForPackage e k s))"
    and "k = B \<Longrightarrow> fst (sc_dependenciesMetForPackage e k s) \<noteq> Return True"
proof -
  let ?s = "log_info e ''_sc_dependenciesMetForPackage'' k s"
  have bs: "blocked A B ?s" using b by simp
  show "fst (sc_dependenciesMetForPackage e k s) \<noteq> Return True" if "k = B"
  proof -
    from b obtain bb where bb: "lookup s B = Some bb"
      by (auto simp: blocked_def)
    from dependenciesMet_True_iff that bb blocked_not_all_executed [OF b bb]
    show ?thesis by blast
  qed
  show "blocked A B (snd (sc_dependenciesMetForPackage e k s))"
  proof (cases "lookup s k")
    case None
    with b show ?thesis by (simp add: sc_dependenciesMetForPackage_def Let_def)
  next
    case (Some p)
    show ?thesis
    proof (cases "k = B")
      case False
      have m1: "blocked A B (modify k (\<lambda>p. p\<lparr>isReady := True\<rparr>) t)" if "blocked A B t" for t
        by (rule blocked_modify [OF that]) (use False in simp_all)
      have m2: "blocked A B (modify k (\<lambda>p. p\<lparr>dependencies := None, isReady := True\<rparr>) t)"
        if "blocked A B t" for t
        by (rule blocked_modify [OF that]) (use False in simp_all)
      have l: "blocked A B (snd (dependenciesMet_loop k ds True ?s))" for ds
        using bs by (rule blocked_dependenciesMet_loop)
      show ?thesis
      proof (cases "declared p = []")
        case True
        with Some bs m1 show ?thesis
          by (auto simp: sc_dependenciesMetForPackage_def Let_def declared_def
              split: option.splits list.splits)
      next
        case False
        then obtain d ds' where ds: "dependencies p = Some (d # ds')"
          by (cases "dependencies p"; cases "declared p") (auto simp: declared_def)
        obtain r s1 where loop: "dependenciesMet_loop k (d # ds') True ?s = (r, s1)"
          by (cases "dependenciesMet_loop k (d # ds') True ?s")
        have b1: "blocked A B s1"
          using l [of "d # ds'"] loop by simp
        show ?thesis
          using Some ds loop b1 m2
          by (cases r)
             (auto simp: sc_dependenciesMetForPackage_def Let_def
               simp del: dependenciesMet_loop.simps)
      qed
    next
      case True
      with b Some obtain ds where ds: "dependencies p = Some ds" "A \<in> set ds"
        by (cases "dependencies p") (auto simp: blocked_def declared_def)
      then obtain d ds' where c: "ds = d # ds'" by (cases ds) auto
      have nt: "fst (dependenciesMet_loop k ds True ?s) \<noteq> Return True"
        using dependenciesMet_loop_True_iff [of k ds True ?s] b ds(2)
        by (auto simp: blocked_def)
      have l: "blocked A B (snd (dependenciesMet_loop k ds True ?s))"
        using bs by (rule blocked_dependenciesMet_loop)
      show ?thesis
        using Some ds(1) nt l unfolding c
        by (cases "dependenciesMet_loop k (d # ds') True ?s")
           (auto simp: sc_dependenciesMetForPackage_def Let_def
             simp del: dependenciesMet_loop.simps split: result.splits)
    qed
  qed
qed


lemma blocked_evaluate_source:
  assumes b: "blocked A B s" and k: "k \<noteq> B"
  shows "blocked A B (snd (evaluate_source e k s))"
proof (cases "lookup s k")
  case None
  with b show ?thesis by (simp add: evaluate_source_def Let_def)
next
  case (Some p)
  have m: "blocked A B (modify k f t)"
    if "blocked A B t" "\<And>a. didFailToEvaluate a \<Longrightarrow> \<not> isExecuted a \<Longrightarrow>
                            didFailToEvaluate (f a) \<and> \<not> isExecuted (f a)" for f t
    by (rule blocked_modify [OF that(1)]) (use k that(2) in simp_all)
  show ?thesis
    using Some b
    by (auto simp: evaluate_source_def Let_def split: option.splits prod.splits intro!: m)
qed

lemma blocked_didExecute_head:
  assumes b: "blocked A B s" and k: "k \<noteq> B"
  shows "blocked A B (snd (didExecute_head e k s))"
    and "fst (didExecute_head e k s) = Some (didFail, ds) \<Longrightarrow> k = A \<Longrightarrow> didFail"
proof -
  let ?s0 = "log_info e ''_sc_packageDidExecute'' k s"
  show "didFail" if "fst (didExecute_head e k s) = Some (didFail, ds)" "k = A"
    using that b
    by (auto simp: didExecute_head_def Let_def blocked_def split: option.splits list.splits)
  show "blocked A B (snd (didExecute_head e k s))"
  proof (cases "lookup s k")
    case None
    with b show ?thesis by (simp add: didExecute_head_def Let_def)
  next
    case (Some p)
    let ?s1 = "if \<not> didFailToEvaluate p
               then modify k (\<lambda>p. p\<lparr>isExecuted := True\<rparr>) ?s0 else ?s0"
    have b1: "blocked A B ?s1"
    proof (cases "didFailToEvaluate p")
      case True
      with b show ?thesis by simp
    next
      case False
      have "blocked A B (modify k (\<lambda>p. p\<lparr>isExecuted := True\<rparr>) ?s0)"
      proof (rule blocked_modify)
        show "blocked A B ?s0" using b by simp
      next
        fix a assume "k = A" "lookup ?s0 A = Some a" "didFailToEvaluate a"
        with Some False show "didFailToEvaluate (a\<lparr>isExecuted := True\<rparr>)
                               \<and> \<not> isExecuted (a\<lparr>isExecuted := True\<rparr>)"
          by simp
      next
        fix bb assume "k = B"
        with k show "\<not> isExecuted (bb\<lparr>isExecuted := True\<rparr>) \<and> \<not> isReady (bb\<lparr>isExecuted := True\<rparr>)
                      \<and> A \<in> set (declared (bb\<lparr>isExecuted := True\<rparr>))"
          by simp
      qed
      with False show ?thesis by simp
    qed
    have "blocked A B (snd (sc_invokeCallbacksForPackage e k ?s1))"
      using b1 by (rule blocked_invokeCallbacks)
    with Some show ?thesis
      by (auto simp: didExecute_head_def Let_def split: option.splits list.splits)
  qed
qed

lemma blocked_didExecute_step:
  assumes b: "blocked A B s" and f: "k = A \<longrightarrow> didFail"
  shows "blocked A B (snd (didExecute_step e k didFail d s))"
    and "fst (didExecute_step e k didFail d s) = Return True \<Longrightarrow> d \<noteq> B"
proof -
  have poison: "blocked A B (modify d
      (\<lambda>p. p\<lparr>failedDependencies :=
                Some ((case failedDependencies p of None \<Rightarrow> [] | Some fs \<Rightarrow> fs) @ [k]),
              doNotExecute := True\<rparr>) s)"
    by (rule blocked_modify [OF b]) (simp_all add: declared_def)
  have removed: "blocked A B (modify d (\<lambda>p. p\<lparr>dependencies := Some (remove1 k deps)\<rparr>) s)"
    if "lookup s d = Some q" "dependencies q = Some deps" "\<not> didFail" for q deps
  proof (rule blocked_modify [OF b])
    fix a assume "didFailToEvaluate a" "\<not> isExecuted a"
    then show "didFailToEvaluate (a\<lparr>dependencies := Some (remove1 k deps)\<rparr>)
                \<and> \<not> isExecuted (a\<lparr>dependencies := Some (remove1 k deps)\<rparr>)"
      by simp
  next
    fix bb assume h: "d = B" "lookup s B = Some bb" "\<not> isExecuted bb" "\<not> isReady bb"
      "A \<in> set (declared bb)"
    from h(1,2) that(1,2) have "declared bb = deps" by (simp add: declared_def)
    moreover from f that(3) have "k \<noteq> A" by blast
    ultimately have "A \<in> set (remove1 k deps)" using h(5) by simp
    with h(3,4) show "\<not> isExecuted (bb\<lparr>dependencies := Some (remove1 k deps)\<rparr>)
        \<and> \<not> isReady (bb\<lparr>dependencies := Some (remove1 k deps)\<rparr>)
        \<and> A \<in> set (declared (bb\<lparr>dependencies := Some (remove1 k deps)\<rparr>))"
      by (simp add: declared_def)
  qed
  show "blocked A B (snd (didExecute_step e k didFail d s))"
    using b poison removed blocked_dependenciesMet(1)
    by (auto simp: didExecute_step_def split: option.splits)
  show "d \<noteq> B" if "fst (didExecute_step e k didFail d s) = Return True"
  proof
    assume dB: "d = B"
    from that obtain q deps where q: "lookup s d = Some q" "dependencies q = Some deps"
      "\<not> didFail"
      and r: "fst (sc_dependenciesMetForPackage e d
                (modify d (\<lambda>p. p\<lparr>dependencies := Some (remove1 k deps)\<rparr>) s)) = Return True"
      by (auto simp: didExecute_step_def split: option.splits if_splits)
    from blocked_dependenciesMet(2) [OF removed [OF q], of d e] dB r show False
      by simp
  qed
qed

lemma blocked_loadPackage_head:
  assumes b: "blocked A B s"
  shows "blocked A B (snd (loadPackage_head e k target m args s))"
    and "fst (loadPackage_head e k target m args s) = Evaluate \<Longrightarrow> k \<noteq> B"
proof -
  show "k \<noteq> B" if "fst (loadPackage_head e k target m args s) = Evaluate"
    using that b
    by (auto simp: loadPackage_head_def Let_def blocked_def
        split: option.splits if_splits prod.splits result.splits)
  let ?s2 = "log_info e ''loadPackage: package already loaded and ready'' k
               (log_info e ''loadPackage: package already loaded'' k
                  (log_info e ''loadPackage'' k s))"
  have inv: "blocked A B (snd (sc_invokeCallbacksForPackage e k
                                 (registerCallbackForPackage e k target m args ?s2)))"
    using b by (intro blocked_invokeCallbacks blocked_registerCallback) simp
  have fetch: "blocked A B (loadJavaScript e k
                  (registerCallbackForPackage e k target m args (log_info e ''loadPackage'' k s)))"
    using b by (intro blocked_loadJavaScript blocked_registerCallback) simp
  show "blocked A B (snd (loadPackage_head e k target m args s))"
    using b inv fetch
    by (auto simp: loadPackage_head_def Let_def
        split: option.splits prod.splits result.splits)
qed


lemma blocked_cluster:
  "blocked A B s \<Longrightarrow> blocked A B (snd (loadPackage e n k target m args s))"
  "blocked A B s \<Longrightarrow> k \<noteq> B \<Longrightarrow> blocked A B (snd (sc_evaluateJavaScriptForPackage e n k s))"
  "blocked A B s \<Longrightarrow> k \<noteq> B \<Longrightarrow> blocked A B (snd (sc_packageDidExecute e n k s))"
  "blocked A B s \<Longrightarrow> k \<noteq> B \<Longrightarrow> (k = A \<longrightarrow> didFail) \<Longrightarrow>
     blocked A B (snd (didExecute_loop e n k didFail ds s))"
proof (induction e n k target m args s and e n k s and e n k s and e n k didFail ds s
    rule: loadPackage_sc_evaluateJavaScriptForPackage_sc_packageDidExecute_didExecute_loop.induct)
  case (1 e n k target m args s)
  obtain x s1 where h: "loadPackage_head e k target m args s = (x, s1)"
    by (cases "loadPackage_head e k target m args s")
  have b1: "blocked A B s1"
    using blocked_loadPackage_head(1) [OF "1.prems", of e k target m args] h by simp
  show ?case
  proof (cases x)
    case (Finish r)
    with h b1 show ?thesis by simp
  next
    case Evaluate
    have kB: "k \<noteq> B"
      using blocked_loadPackage_head(2) [OF "1.prems", of e k target m args] h Evaluate by simp
    have "blocked A B (snd (sc_evaluateJavaScriptForPackage e n k s1))"
      using "1.IH" [OF h [symmetric] Evaluate b1 kB] .
    with h Evaluate show ?thesis
      by (cases "sc_evaluateJavaScriptForPackage e n k s1") (auto split: result.splits)
  qed
next
  case (2 e n k s)
  obtain x s1 where h: "evaluate_source e k s = (x, s1)"
    by (cases "evaluate_source e k s")
  have b1: "blocked A B s1"
    using blocked_evaluate_source [OF "2.prems", of e] h by simp
  show ?case
  proof (cases x)
    case True
    then have xT: "x = True" by simp
    from "2.IH" [OF h [symmetric] xT b1 "2.prems"(2)] h True show ?thesis by simp
  next
    case False
    with h b1 show ?thesis by simp
  qed
next
  case (3 e n k s)
  obtain x s1 where h: "didExecute_head e k s = (x, s1)"
    by (cases "didExecute_head e k s")
  have b1: "blocked A B s1"
    using blocked_didExecute_head(1) [OF "3.prems", of e] h by simp
  show ?case
  proof (cases x)
    case None
    with h b1 show ?thesis by simp
  next
    case (Some fd)
    obtain didFail ds where fd: "fd = (didFail, ds)" by (cases fd)
    have f: "k = A \<longrightarrow> didFail"
      using blocked_didExecute_head(2) [OF "3.prems", of e didFail ds] h Some fd by auto
    from "3.IH" [OF h [symmetric] Some fd [symmetric] b1 "3.prems"(2) f] h Some fd
    show ?thesis by simp
  qed
next
  case (4 e n k didFail s)
  then show ?case by simp
next
  case (5 e n k didFail d ds s)
  obtain r s1 where h: "didExecute_step e k didFail d s = (r, s1)"
    by (cases "didExecute_step e k didFail d s")
  have b1: "blocked A B s1"
    using blocked_didExecute_step(1) [OF "5.prems"(1,3), of e d] h by simp
  show ?case
  proof (cases r)
    case (Return met)
    show ?thesis
    proof (cases met)
      case False
      then have mF: "met = False" by simp
      from "5.IH"(3) [OF h [symmetric] Return mF b1 "5.prems"(2,3)] h Return False
      show ?thesis by simp
    next
      case True
      then have mT: "met = True" by simp
      show ?thesis
      proof (cases n)
        case 0
        with h Return True b1 show ?thesis by simp
      next
        case (Suc n')
        obtain r2 s2 where l: "loadPackage e n' d Undefined Undefined [] s1 = (r2, s2)"
          by (cases "loadPackage e n' d Undefined Undefined [] s1")
        have b2: "blocked A B s2"
          using "5.IH"(1) [OF h [symmetric] Return mT Suc b1] l by simp
        show ?thesis
        proof (cases r2)
          case (Return b)
          from "5.IH"(2) [OF h [symmetric] \<open>r = Return met\<close> mT Suc l [symmetric] Return b2
              "5.prems"(2,3)] h \<open>r = Return met\<close> True Suc l Return
          show ?thesis by simp
        next
          case (Throw x)
          with h \<open>r = Return met\<close> True Suc l b2 show ?thesis by simp
        next
          case OutOfFuel
          with h \<open>r = Return met\<close> True Suc l b2 show ?thesis by simp
        qed
      qed
    qed
  next
    case (Throw x)
    with h b1 show ?thesis by simp
  next
    case OutOfFuel
    with h b1 show ?thesis by simp
  qed
qed

section \<open>The fuel is enough\<close>

lemma sum_list_update:
  "map_of al k = Some p \<Longrightarrow>
     sum_list (map g (AList.update k v al)) + g (k, p) = sum_list (map g al) + g (k, v)"
  for g :: "'a \<times> 'b \<Rightarrow> nat"
  by (induction al) (auto split: if_splits)

lemma fuel_for_same_manifest: "manifest s' = manifest s \<Longrightarrow> fuel_for s' = fuel_for s"
  by (simp add: fuel_for_def)

lemma fuel_for_emit [simp]: "fuel_for (emit ev s) = fuel_for s"
  by (simp add: fuel_for_def)

lemma fuel_for_warn [simp]: "fuel_for (warn site n s) = fuel_for s"
  by (simp add: fuel_for_def)

lemma fuel_for_log_info [simp]: "fuel_for (log_info e site n s) = fuel_for s"
  by (simp add: fuel_for_def)

lemma fuel_for_log_warn [simp]: "fuel_for (log_warn e site n s) = fuel_for s"
  by (simp add: fuel_for_def)

lemma fuel_for_modify:
  "lookup s k = Some p \<Longrightarrow>
     fuel_for (modify k f s) + source_size p = fuel_for s + source_size (f p)"
  using sum_list_update [of "manifest s" k p "\<lambda>(name, p). source_size p" "f p"]
  by (simp add: fuel_for_def modify_def lookup_def)

lemma fuel_for_modify_same:
  "(\<And>p. source (f p) = source p) \<Longrightarrow> fuel_for (modify k f s) = fuel_for s"
proof (cases "lookup s k")
  case None
  then show ?thesis by (simp add: modify_def)
next
  case (Some p)
  assume "\<And>p. source (f p) = source p"
  then have "source_size (f p) = source_size p" by (simp add: source_size_def)
  with fuel_for_modify [OF Some, of f] show ?thesis by simp
qed

lemma length_delete_le: "length (AList.delete k al) \<le> length al"
  by (simp add: AList.delete_eq)

lemma length_delete_less: "map_of al k = Some v \<Longrightarrow> length (AList.delete k al) < length al"
proof -
  assume "map_of al k = Some v"
  then have "(k, v) \<in> set al" by (rule map_of_SomeD)
  then show ?thesis
    unfolding AList.delete_eq by (intro length_filter_less [of "(k, v)"]) simp_all
qed

lemma accumulate_length_le: "length (snd (accumulate parts code src)) \<le> length src"
proof (induction parts arbitrary: code src)
  case Nil
  show ?case by simp
next
  case (Cons part parts)
  show ?case
  proof (cases "map_of src part")
    case None
    with Cons.IH show ?thesis by simp
  next
    case (Some c)
    show ?thesis
    proof (cases "c = []")
      case True
      with Some Cons.IH show ?thesis by simp
    next
      case False
      have "length (snd (accumulate parts ((if code \<noteq> [] then code @ '';'' else code) @ c)
                           (AList.delete part src))) \<le> length (AList.delete part src)"
        by (rule Cons.IH)
      also have "\<dots> \<le> length src" by (rule length_delete_le)
      finally show ?thesis using Some False by simp
    qed
  qed
qed

lemma accumulate_length_less:
  "fst (accumulate parts code src) \<noteq> code \<Longrightarrow>
     length (snd (accumulate parts code src)) < length src"
proof (induction parts arbitrary: code src)
  case Nil
  then show ?case by simp
next
  case (Cons part parts)
  show ?case
  proof (cases "map_of src part")
    case None
    with Cons show ?thesis by simp
  next
    case (Some c)
    show ?thesis
    proof (cases "c = []")
      case True
      with Some Cons show ?thesis by simp
    next
      case False
      have "length (snd (accumulate parts ((if code \<noteq> [] then code @ '';'' else code) @ c)
                           (AList.delete part src))) \<le> length (AList.delete part src)"
        by (rule accumulate_length_le)
      also have "\<dots> < length src" using Some by (rule length_delete_less)
      finally show ?thesis using Some False by simp
    qed
  qed
qed

lemma fuel_registerCallback [simp]:
  "fuel_for (registerCallbackForPackage e k target m args s) = fuel_for s"
  by (auto simp: registerCallbackForPackage_def fuel_for_modify_same split: option.splits)

lemma fuel_invokeCallbacks [simp]:
  "fuel_for (snd (sc_invokeCallbacksForPackage e k s)) = fuel_for s"
proof (cases "lookup s k")
  case None
  then show ?thesis by (simp add: sc_invokeCallbacksForPackage_def)
next
  case (Some p)
  have "fuel_for (invokeCallbacks_loop e k (queued p) s) = fuel_for s"
    by (rule fuel_for_same_manifest) simp
  with Some show ?thesis
    by (simp add: sc_invokeCallbacksForPackage_def Let_def fuel_for_modify_same queued_def)
qed

lemma fuel_loadJavaScript [simp]: "fuel_for (loadJavaScript e k s) = fuel_for s"
  by (auto simp: loadJavaScript_def sc_urlForPackage_def fuel_for_modify_same
      split: option.splits)

lemma fuel_dependenciesMet_loop [simp]:
  "fuel_for (snd (dependenciesMet_loop k ds ready s)) = fuel_for s"
  by (induction ds arbitrary: ready s) (auto simp: fuel_for_modify_same split: option.splits)

lemma dependenciesMet_loop_fuel: "fst (dependenciesMet_loop k ds ready s) \<noteq> OutOfFuel"
  by (induction ds arbitrary: ready s) (auto split: option.splits)

lemma fuel_dependenciesMet:
  "fuel_for (snd (sc_dependenciesMetForPackage e k s)) = fuel_for s"
  "fst (sc_dependenciesMetForPackage e k s) \<noteq> OutOfFuel"
proof -
  let ?s = "log_info e ''_sc_dependenciesMetForPackage'' k s"
  have l: "fuel_for (snd (dependenciesMet_loop k ds True ?s)) = fuel_for s" for ds
    by simp
  have nf: "fst (dependenciesMet_loop k ds True ?s) \<noteq> OutOfFuel" for ds
    by (rule dependenciesMet_loop_fuel)
  show "fuel_for (snd (sc_dependenciesMetForPackage e k s)) = fuel_for s"
  proof (cases "lookup s k")
    case None
    then show ?thesis by (simp add: sc_dependenciesMetForPackage_def Let_def)
  next
    case (Some p)
    show ?thesis
    proof (cases "declared p = []")
      case True
      with Some show ?thesis
        by (auto simp: sc_dependenciesMetForPackage_def Let_def declared_def
            fuel_for_modify_same split: option.splits list.splits)
    next
      case False
      then obtain d ds' where ds: "dependencies p = Some (d # ds')"
        by (cases "dependencies p"; cases "declared p") (auto simp: declared_def)
      obtain r s1 where loop: "dependenciesMet_loop k (d # ds') True ?s = (r, s1)"
        by (cases "dependenciesMet_loop k (d # ds') True ?s")
      have f1: "fuel_for s1 = fuel_for s"
        using l [of "d # ds'"] loop by simp
      show ?thesis
        using Some ds loop f1
        by (cases r)
           (auto simp: sc_dependenciesMetForPackage_def Let_def fuel_for_modify_same
             simp del: dependenciesMet_loop.simps)
    qed
  qed
  show "fst (sc_dependenciesMetForPackage e k s) \<noteq> OutOfFuel"
  proof (cases "lookup s k")
    case None
    then show ?thesis by (simp add: sc_dependenciesMetForPackage_def Let_def)
  next
    case (Some p)
    show ?thesis
    proof (cases "declared p = []")
      case True
      with Some show ?thesis
        by (auto simp: sc_dependenciesMetForPackage_def Let_def declared_def
            split: option.splits list.splits)
    next
      case False
      then obtain d ds' where ds: "dependencies p = Some (d # ds')"
        by (cases "dependencies p"; cases "declared p") (auto simp: declared_def)
      obtain r s1 where loop: "dependenciesMet_loop k (d # ds') True ?s = (r, s1)"
        by (cases "dependenciesMet_loop k (d # ds') True ?s")
      have "r \<noteq> OutOfFuel" using nf [of "d # ds'"] loop by simp
      then show ?thesis
        using Some ds loop
        by (cases r)
           (auto simp: sc_dependenciesMetForPackage_def Let_def
             simp del: dependenciesMet_loop.simps)
    qed
  qed
qed


lemma fuel_evaluate_source:
  "fuel_for (snd (evaluate_source e k s)) \<le> fuel_for s"
  "fst (evaluate_source e k s) \<Longrightarrow> fuel_for (snd (evaluate_source e k s)) < fuel_for s"
proof -
  let ?s = "log_info e ''_sc_evaluateJavaScriptForPackage'' k s"
  have both: "fuel_for (snd (evaluate_source e k s)) \<le> fuel_for s
              \<and> (fst (evaluate_source e k s) \<longrightarrow>
                   fuel_for (snd (evaluate_source e k s)) < fuel_for s)"
  proof (cases "lookup s k")
    case None
    then show ?thesis by (simp add: evaluate_source_def Let_def)
  next
    case (Some p)
    show ?thesis
    proof (cases "isExecuted p \<or> source p = None")
      case True
      with Some show ?thesis by (auto simp: evaluate_source_def Let_def)
    next
      case False
      then obtain src where src: "source p = Some src" "\<not> isExecuted p" by auto
      obtain code src' where acc: "accumulate (parts_for (PACKAGE_MODE e)) [] src = (code, src')"
        by (cases "accumulate (parts_for (PACKAGE_MODE e)) [] src")
      let ?s1 = "modify k (\<lambda>p. p\<lparr>source := Some src'\<rparr>) ?s"
      have ps: "lookup ?s k = Some p" using Some by simp
      have le: "length src' \<le> length src"
        using accumulate_length_le [of "parts_for (PACKAGE_MODE e)" "[]" src] acc by simp
      have lt: "code \<noteq> [] \<Longrightarrow> length src' < length src"
        using accumulate_length_less [of "parts_for (PACKAGE_MODE e)" "[]" src] acc by simp
      have f1: "fuel_for ?s1 + length src = fuel_for s + length src'"
        using fuel_for_modify [OF ps, of "\<lambda>p. p\<lparr>source := Some src'\<rparr>"] src(1)
        by (simp add: source_size_def)
      have f1le: "fuel_for ?s1 \<le> fuel_for s" using f1 le by simp
      have f1lt: "code \<noteq> [] \<Longrightarrow> fuel_for ?s1 < fuel_for s" using f1 lt by fastforce
      show ?thesis
        using Some src acc f1le f1lt
        by (simp add: evaluate_source_def Let_def fuel_for_modify_same)
    qed
  qed
  from both show "fuel_for (snd (evaluate_source e k s)) \<le> fuel_for s" by blast
  from both show "fuel_for (snd (evaluate_source e k s)) < fuel_for s"
    if "fst (evaluate_source e k s)" using that by blast
qed

lemma fuel_didExecute_head [simp]:
  "fuel_for (snd (didExecute_head e k s)) = fuel_for s"
  by (auto simp: didExecute_head_def Let_def fuel_for_modify_same
      split: option.splits list.splits)

lemma fuel_didExecute_step:
  "fuel_for (snd (didExecute_step e k didFail d s)) = fuel_for s"
  "fst (didExecute_step e k didFail d s) \<noteq> OutOfFuel"
  by (auto simp: didExecute_step_def fuel_for_modify_same fuel_dependenciesMet
      split: option.splits)

lemma fuel_loadPackage_head:
  "fuel_for (snd (loadPackage_head e k target m args s)) = fuel_for s"
  "fst (loadPackage_head e k target m args s) \<noteq> Finish OutOfFuel"
proof -
  let ?s2 = "log_info e ''loadPackage: package already loaded and ready'' k
               (log_info e ''loadPackage: package already loaded'' k
                  (log_info e ''loadPackage'' k s))"
  let ?c = "sc_invokeCallbacksForPackage e k (registerCallbackForPackage e k target m args ?s2)"
  obtain rc sc where c: "?c = (rc, sc)" by (cases ?c)
  have inv: "fuel_for sc = fuel_for s"
    using fuel_invokeCallbacks [of e k "registerCallbackForPackage e k target m args ?s2"] c
    by simp
  show "fuel_for (snd (loadPackage_head e k target m args s)) = fuel_for s"
    using inv c
    by (auto simp: loadPackage_head_def Let_def
        split: option.splits prod.splits result.splits)
  have "fst ?c \<noteq> OutOfFuel"
    by (auto simp: sc_invokeCallbacksForPackage_def Let_def split: option.splits)
  with c have nf: "rc \<noteq> OutOfFuel" by simp
  show "fst (loadPackage_head e k target m args s) \<noteq> Finish OutOfFuel"
    using nf c isLoaded_not_OutOfFuel
    by (auto simp: loadPackage_head_def Let_def
        split: option.splits prod.splits result.splits)
qed

text \<open>
  With fuel that covers the entries of the source objects, none of the four functions
  runs out of fuel, and none of them adds an entry.
\<close>

lemma fuel_cluster:
  "fuel_for s \<le> Suc n \<Longrightarrow>
     fst (loadPackage e n k target m args s) \<noteq> OutOfFuel
     \<and> fuel_for (snd (loadPackage e n k target m args s)) \<le> fuel_for s"
  "fuel_for s \<le> Suc n \<Longrightarrow>
     fst (sc_evaluateJavaScriptForPackage e n k s) \<noteq> OutOfFuel
     \<and> fuel_for (snd (sc_evaluateJavaScriptForPackage e n k s)) \<le> fuel_for s"
  "fuel_for s \<le> n \<Longrightarrow>
     fst (sc_packageDidExecute e n k s) \<noteq> OutOfFuel
     \<and> fuel_for (snd (sc_packageDidExecute e n k s)) \<le> fuel_for s"
  "fuel_for s \<le> n \<Longrightarrow>
     fst (didExecute_loop e n k didFail ds s) \<noteq> OutOfFuel
     \<and> fuel_for (snd (didExecute_loop e n k didFail ds s)) \<le> fuel_for s"
proof (induction e n k target m args s and e n k s and e n k s and e n k didFail ds s
    rule: loadPackage_sc_evaluateJavaScriptForPackage_sc_packageDidExecute_didExecute_loop.induct)
  case (1 e n k target m args s)
  obtain x s1 where h: "loadPackage_head e k target m args s = (x, s1)"
    by (cases "loadPackage_head e k target m args s")
  have f1: "fuel_for s1 = fuel_for s"
    using fuel_loadPackage_head(1) [of e k target m args s] h by simp
  show ?case
  proof (cases x)
    case (Finish r)
    with h f1 fuel_loadPackage_head(2) [of e k target m args s] show ?thesis by auto
  next
    case Evaluate
    from "1.IH" [OF h [symmetric] Evaluate] "1.prems" f1
    have "fst (sc_evaluateJavaScriptForPackage e n k s1) \<noteq> OutOfFuel
          \<and> fuel_for (snd (sc_evaluateJavaScriptForPackage e n k s1)) \<le> fuel_for s"
      by simp
    with h Evaluate show ?thesis
      by (cases "sc_evaluateJavaScriptForPackage e n k s1") (auto split: result.splits)
  qed
next
  case (2 e n k s)
  obtain x s1 where h: "evaluate_source e k s = (x, s1)"
    by (cases "evaluate_source e k s")
  show ?case
  proof (cases x)
    case True
    then have xT: "x = True" by simp
    have lt: "fuel_for s1 < fuel_for s"
      using fuel_evaluate_source(2) [of e k s] h True by simp
    with "2.prems" have "fuel_for s1 \<le> n" by simp
    from "2.IH" [OF h [symmetric] xT this] lt h True show ?thesis by simp
  next
    case False
    with h fuel_evaluate_source(1) [of e k s] show ?thesis by simp
  qed
next
  case (3 e n k s)
  obtain x s1 where h: "didExecute_head e k s = (x, s1)"
    by (cases "didExecute_head e k s")
  have f1: "fuel_for s1 = fuel_for s"
    using fuel_didExecute_head [of e k s] h by simp
  show ?case
  proof (cases x)
    case None
    with h f1 show ?thesis by simp
  next
    case (Some fd)
    obtain didFail ds where fd: "fd = (didFail, ds)" by (cases fd)
    from "3.IH" [OF h [symmetric] Some fd [symmetric]] "3.prems" f1 h Some fd
    show ?thesis by simp
  qed
next
  case (4 e n k didFail s)
  show ?case by simp
next
  case (5 e n k didFail d ds s)
  obtain r s1 where h: "didExecute_step e k didFail d s = (r, s1)"
    by (cases "didExecute_step e k didFail d s")
  have f1: "fuel_for s1 = fuel_for s"
    using fuel_didExecute_step(1) [of e k didFail d s] h by simp
  have rf: "r \<noteq> OutOfFuel"
    using fuel_didExecute_step(2) [of e k didFail d s] h by simp
  show ?case
  proof (cases r)
    case (Return met)
    show ?thesis
    proof (cases met)
      case False
      then have mF: "met = False" by simp
      from "5.IH"(3) [OF h [symmetric] Return mF] "5.prems" f1 h Return False
      show ?thesis by simp
    next
      case True
      then have mT: "met = True" by simp
      from "5.prems" obtain n' where Suc: "n = Suc n'"
        by (cases n) (simp_all add: fuel_for_def)
      obtain r2 s2 where l: "loadPackage e n' d Undefined Undefined [] s1 = (r2, s2)"
        by (cases "loadPackage e n' d Undefined Undefined [] s1")
      have "fuel_for s1 \<le> Suc n'" using "5.prems" f1 Suc by simp
      from "5.IH"(1) [OF h [symmetric] Return mT Suc this] l
      have r2: "r2 \<noteq> OutOfFuel" and f2: "fuel_for s2 \<le> fuel_for s1" by simp_all
      show ?thesis
      proof (cases r2)
        case (Return b)
        have "fuel_for s2 \<le> n" using f2 f1 "5.prems" by simp
        from "5.IH"(2) [OF h [symmetric] \<open>r = Return met\<close> mT Suc l [symmetric] Return this]
          f2 f1 h \<open>r = Return met\<close> True Suc l Return
        show ?thesis by simp
      next
        case (Throw x)
        with h \<open>r = Return met\<close> True Suc l f2 f1 show ?thesis by simp
      next
        case OutOfFuel
        with r2 show ?thesis by simp
      qed
    qed
  next
    case (Throw x)
    with h f1 show ?thesis by simp
  next
    case OutOfFuel
    with rf show ?thesis by simp
  qed
qed

section \<open>The steps of the loader\<close>

lemma loadDependencies_loop_inv:
  "(fuel_for s \<le> Suc n \<longrightarrow>
      fst (loadDependencies_loop e n k ds s) \<noteq> OutOfFuel
      \<and> fuel_for (snd (loadDependencies_loop e n k ds s)) \<le> fuel_for s)
   \<and> (blocked A B s \<longrightarrow> blocked A B (snd (loadDependencies_loop e n k ds s)))"
proof (induction ds arbitrary: s)
  case Nil
  show ?case by simp
next
  case (Cons d ds)
  show ?case
  proof (cases "lookup s d")
    case None
    then show ?thesis by simp
  next
    case (Some q)
    let ?s1 = "log_info e ''_sc_loadDependenciesForPackage: loading dependency'' d
                 (modify d
                    (\<lambda>p. p\<lparr>dependents :=
                              Some ((case dependents p of None \<Rightarrow> [] | Some xs \<Rightarrow> xs) @ [k])\<rparr>) s)"
    obtain r s2 where l: "loadPackage e n d Undefined Undefined [] ?s1 = (r, s2)"
      by (cases "loadPackage e n d Undefined Undefined [] ?s1")
    have f1: "fuel_for ?s1 = fuel_for s"
      by (simp add: fuel_for_modify_same)
    have b1: "blocked A B ?s1" if "blocked A B s"
    proof -
      have "blocked A B (modify d
                    (\<lambda>p. p\<lparr>dependents :=
                              Some ((case dependents p of None \<Rightarrow> [] | Some xs \<Rightarrow> xs) @ [k])\<rparr>) s)"
        by (rule blocked_modify [OF that]) (simp_all add: declared_def)
      then show ?thesis by simp
    qed
    have f2: "r \<noteq> OutOfFuel \<and> fuel_for s2 \<le> fuel_for s" if "fuel_for s \<le> Suc n"
      using fuel_cluster(1) [of ?s1 n e d Undefined Undefined "[]"] that f1 l by simp
    have b2: "blocked A B s2" if "blocked A B s"
      using blocked_cluster(1) [OF b1 [OF that], of e n d Undefined Undefined "[]"] l by simp
    have unfold: "loadDependencies_loop e n k (d # ds) s =
                    (case r of Return b \<Rightarrow> loadDependencies_loop e n k ds s2
                     | Throw x \<Rightarrow> (Throw x, s2) | OutOfFuel \<Rightarrow> (OutOfFuel, s2))"
      using Some l by (simp split: result.splits)
    show ?thesis
    proof (cases r)
      case (Return b)
      with unfold Cons.IH [of s2] f2 b2 show ?thesis by auto
    next
      case (Throw x)
      with unfold f2 b2 show ?thesis by auto
    next
      case OutOfFuel
      with unfold f2 b2 show ?thesis by auto
    qed
  qed
qed

lemma loadDependencies_inv:
  "(fuel_for s \<le> Suc n \<longrightarrow>
      fst (sc_loadDependenciesForPackage e n k s) \<noteq> OutOfFuel
      \<and> fuel_for (snd (sc_loadDependenciesForPackage e n k s)) \<le> fuel_for s)
   \<and> (blocked A B s \<longrightarrow> blocked A B (snd (sc_loadDependenciesForPackage e n k s)))"
proof (cases "lookup s k")
  case None
  then show ?thesis by (simp add: sc_loadDependenciesForPackage_def Let_def)
next
  case (Some p)
  let ?s = "log_info e ''_sc_loadDependenciesForPackage'' k s"
  show ?thesis
  proof (cases "declared p = []")
    case True
    with Some show ?thesis
      by (auto simp: sc_loadDependenciesForPackage_def Let_def declared_def
          split: option.splits list.splits)
  next
    case False
    then obtain d ds' where ds: "dependencies p = Some (d # ds')"
      by (cases "dependencies p"; cases "declared p") (auto simp: declared_def)
    have "sc_loadDependenciesForPackage e n k s = loadDependencies_loop e n k (d # ds') ?s"
      using Some ds by (simp add: sc_loadDependenciesForPackage_def Let_def)
    with loadDependencies_loop_inv [of ?s n e k "d # ds'" A B] show ?thesis
      by simp
  qed
qed

lemma packageDidLoad_inv:
  "(fuel_for s \<le> Suc n \<longrightarrow> fst (sc_packageDidLoad e n k s) \<noteq> OutOfFuel)
   \<and> (blocked A B s \<longrightarrow> blocked A B (snd (sc_packageDidLoad e n k s)))"
proof (cases "lookup s k")
  case None
  then show ?thesis by (simp add: sc_packageDidLoad_def Let_def)
next
  case (Some p)
  let ?s1 = "modify k (\<lambda>p. p\<lparr>isLoaded := True, isLoading := False\<rparr>)
               (log_info e ''_sc_packageDidLoad'' k s)"
  obtain r s2 where d: "sc_dependenciesMetForPackage e k ?s1 = (r, s2)"
    by (cases "sc_dependenciesMetForPackage e k ?s1")
  have f1: "fuel_for ?s1 = fuel_for s"
    by (simp add: fuel_for_modify_same)
  have f2: "fuel_for s2 = fuel_for s" and r: "r \<noteq> OutOfFuel"
    using fuel_dependenciesMet [of e k ?s1] d f1 by simp_all
  have b1: "blocked A B ?s1" if "blocked A B s"
  proof (rule blocked_modify)
    show "blocked A B (log_info e ''_sc_packageDidLoad'' k s)" using that by simp
  qed (simp_all add: declared_def)
  have b2: "blocked A B s2" if "blocked A B s"
    using blocked_dependenciesMet(1) [OF b1 [OF that], of e k] d by simp
  have kB: "k \<noteq> B" if "blocked A B s" "r = Return True"
    using blocked_dependenciesMet(2) [OF b1 [OF that(1)], of k e] d that(2) by auto
  let ?s3 = "log_info e ''_sc_packageDidLoad: dependencies met'' k s2"
  let ?s4 = "log_info e ''_sc_packageDidLoad: dependencies were not met'' k s2"
  have unfold: "sc_packageDidLoad e n k s =
      (case r of
         Return met \<Rightarrow>
           if met then
             (if (case lookup ?s3 k of None \<Rightarrow> False | Some q \<Rightarrow> isExecuted q)
              then (Return (), ?s3)
              else sc_evaluateJavaScriptForPackage e n k ?s3)
           else sc_loadDependenciesForPackage e n k ?s4
       | Throw x \<Rightarrow> (Throw x, s2)
       | OutOfFuel \<Rightarrow> (OutOfFuel, s2))"
    using Some d by (simp add: sc_packageDidLoad_def Let_def split: result.splits)
  show ?thesis
  proof (cases r)
    case (Return met)
    show ?thesis
    proof (cases met)
      case True
      have ev: "fst (sc_evaluateJavaScriptForPackage e n k ?s3) \<noteq> OutOfFuel"
        if "fuel_for s \<le> Suc n"
        using fuel_cluster(2) [of ?s3 n e k] that f2 by simp
      have bv: "blocked A B (snd (sc_evaluateJavaScriptForPackage e n k ?s3))"
        if "blocked A B s"
        using blocked_cluster(2) [of A B ?s3 k e n] b2 [OF that] kB [OF that] Return True
        by simp
      from unfold Return True ev bv b2 show ?thesis by auto
    next
      case False
      from unfold Return False loadDependencies_inv [of ?s4 n e k A B] f2 b2
      show ?thesis by auto
    qed
  next
    case (Throw x)
    with unfold b2 show ?thesis by auto
  next
    case OutOfFuel
    with r show ?thesis by simp
  qed
qed

lemma fuel_for_suffices:
  "fst (loadPackage e (fuel_for s) k target m args s) \<noteq> OutOfFuel"
  "fst (sc_packageDidLoad e (fuel_for s) k s) \<noteq> OutOfFuel"
  using fuel_cluster(1) [of s "fuel_for s" e k target m args]
    packageDidLoad_inv [of s "fuel_for s" e k]
  by simp_all

lemma blocked_run_op: "blocked A B s \<Longrightarrow> blocked A B (run_op e x s)"
proof (cases x)
  case (LoadPackage k target m args)
  assume "blocked A B s"
  with LoadPackage blocked_cluster(1) show ?thesis by simp
next
  case (RegisterCallback k target m args)
  assume "blocked A B s"
  with RegisterCallback blocked_registerCallback show ?thesis by simp
next
  case (LoadJavaScript k)
  assume "blocked A B s"
  with LoadJavaScript blocked_loadJavaScript show ?thesis by simp
next
  case (PackageDidLoad k)
  assume "blocked A B s"
  with PackageDidLoad packageDidLoad_inv [of s "fuel_for s" e k A B] show ?thesis by simp
qed

lemma blocked_run_ops: "blocked A B s \<Longrightarrow> blocked A B (run_ops e xs s)"
  by (induction xs arbitrary: s) (simp_all add: blocked_run_op)

section \<open>C3: the dependents of a package that failed\<close>

text \<open>
  A dependent that is registered with the package when the package fails. Let \<open>A\<close> have
  failed to evaluate, and let \<open>B\<close> depend solely on \<open>A\<close>, be neither ready nor executed,
  and be among the dependents of \<open>A\<close>, all of which are in the manifest. Then after the
  notification \<^verbatim>\<open>_sc_packageDidExecute\<close> of \<open>A\<close>, \<open>B\<close> has \<^verbatim>\<open>doNotExecute\<close> set
  and \<open>A\<close> in its \<^verbatim>\<open>failedDependencies\<close>; and whatever calls of
  \<^verbatim>\<open>loadPackage\<close>, \<^verbatim>\<open>registerCallbackForPackage\<close> or \<^verbatim>\<open>loadJavaScript\<close> and
  whatever script loads follow, for any packages and in any order, \<open>B\<close> is never
  executed. The steps are run with fuel that is always enough.
\<close>

lemma registered_dependent_is_poisoned:
  assumes "lookup s A = Some a" and "didFailToEvaluate a" and "\<not> isExecuted a"
    and "lookup s B = Some b" and "dependencies b = Some [A]"
    and "\<not> isReady b" and "\<not> isExecuted b"
    and "B \<in> set (registered a)" and "\<forall>d \<in> set (registered a). lookup s d \<noteq> None"
  shows "fst (sc_packageDidExecute e n A s) = Return ()
       \<and> (\<exists>b'. lookup (snd (sc_packageDidExecute e n A s)) B = Some b'
               \<and> doNotExecute b'
               \<and> A \<in> set (case failedDependencies b' of None \<Rightarrow> [] | Some fs \<Rightarrow> fs))
       \<and> (\<forall>xs. \<exists>b'. lookup (run_ops e xs (snd (sc_packageDidExecute e n A s))) B = Some b'
                    \<and> \<not> isExecuted b')
       \<and> (\<forall>t k target m args.
             fst (loadPackage e (fuel_for t) k target m args t) \<noteq> OutOfFuel
             \<and> fst (sc_packageDidLoad e (fuel_for t) k t) \<noteq> OutOfFuel)"
proof -
  let ?s' = "snd (sc_packageDidExecute e n A s)"
  note D = didExecute_failed [OF assms(1,2), of e n]
  have w: "waiting_on A b"
    using assms(5,6) by (simp add: waiting_on_def declared_def)
  have ret: "fst (sc_packageDidExecute e n A s) = Return ()"
    using D assms(9) by blast
  have poisoned: "\<exists>b'. lookup ?s' B = Some b' \<and> poisoned_by A b'"
    using D assms(4,8,9) w by blast
  have core: "rel_option same_core (lookup s k) (lookup ?s' k)" for k
    using D by blast
  from core [of A] assms(1) obtain a' where a': "lookup ?s' A = Some a'" "same_core a a'"
    by (cases "lookup ?s' A") auto
  from core [of B] assms(4) obtain b' where b': "lookup ?s' B = Some b'" "same_core b b'"
    by (cases "lookup ?s' B") auto
  have bl: "blocked A B ?s'"
    unfolding blocked_def
    using a' b' assms(2,3,5,6,7) same_core_fields [OF a'(2)] same_core_fields [OF b'(2)]
    by (simp add: declared_def)
  have never: "\<forall>xs. \<exists>b'. lookup (run_ops e xs ?s') B = Some b' \<and> \<not> isExecuted b'"
  proof
    fix xs
    from blocked_run_ops [OF bl, of e xs]
    show "\<exists>b'. lookup (run_ops e xs ?s') B = Some b' \<and> \<not> isExecuted b'"
      by (auto simp: blocked_def)
  qed
  have fuel: "\<forall>t k target m args.
             fst (loadPackage e (fuel_for t) k target m args t) \<noteq> OutOfFuel
             \<and> fst (sc_packageDidLoad e (fuel_for t) k t) \<noteq> OutOfFuel"
    using fuel_for_suffices by blast
  from poisoned have p2: "\<exists>b'. lookup ?s' B = Some b' \<and> doNotExecute b'
               \<and> A \<in> set (case failedDependencies b' of None \<Rightarrow> [] | Some fs \<Rightarrow> fs)"
    by (simp add: poisoned_by_def)
  show ?thesis
    by (intro conjI) (rule ret p2 never fuel)+
qed

lemma registered_dependent_is_poisoned_example:
  "lookup (snd (sc_packageDidExecute quiet 0 ''A''
      \<lparr>manifest = [(''A'', fresh\<lparr>isLoaded := True, isReady := True, didFailToEvaluate := True,
                                 dependents := Some [''B'']\<rparr>),
                   (''B'', fresh\<lparr>isLoaded := True, dependencies := Some [''A''],
                                 source := Some [(''other'', ''b()'')]\<rparr>)],
       trace = []\<rparr>)) ''B''
     = Some (fresh\<lparr>isLoaded := True, dependencies := Some [''A''],
                   source := Some [(''other'', ''b()'')], doNotExecute := True,
                   failedDependencies := Some [''A'']\<rparr>)
   \<and> (\<exists>b'. lookup (run_ops quiet [LoadPackage ''B'' Undefined Undefined [],
                                    PackageDidLoad ''B'']
                (snd (sc_packageDidExecute quiet 0 ''A''
      \<lparr>manifest = [(''A'', fresh\<lparr>isLoaded := True, isReady := True, didFailToEvaluate := True,
                                 dependents := Some [''B'']\<rparr>),
                   (''B'', fresh\<lparr>isLoaded := True, dependencies := Some [''A''],
                                 source := Some [(''other'', ''b()'')]\<rparr>)],
       trace = []\<rparr>))) ''B'' = Some b' \<and> \<not> isExecuted b')"
proof -
  let ?pa = "fresh\<lparr>isLoaded := True, isReady := True, didFailToEvaluate := True,
                   dependents := Some [''B'']\<rparr>"
  let ?pb = "fresh\<lparr>isLoaded := True, dependencies := Some [''A''],
                   source := Some [(''other'', ''b()'')]\<rparr>"
  let ?s = "\<lparr>manifest = [(''A'', ?pa), (''B'', ?pb)], trace = []\<rparr>"
  have h: "lookup ?s ''A'' = Some ?pa" "didFailToEvaluate ?pa" "\<not> isExecuted ?pa"
    "lookup ?s ''B'' = Some ?pb" "dependencies ?pb = Some [''A'']"
    "\<not> isReady ?pb" "\<not> isExecuted ?pb"
    "''B'' \<in> set (registered ?pa)" "\<forall>d \<in> set (registered ?pa). lookup ?s d \<noteq> None"
    by (simp_all add: lookup_def fresh_def registered_def)
  have after: "lookup (snd (sc_packageDidExecute quiet 0 ''A'' ?s)) ''B''
     = Some (?pb\<lparr>doNotExecute := True, failedDependencies := Some [''A'']\<rparr>)"
    by (simp add: didExecute_head_def sc_invokeCallbacksForPackage_def didExecute_step_def
        Let_def lookup_def modify_def log_info_def log_warn_def quiet_def fresh_def)
  from registered_dependent_is_poisoned [OF h, of quiet 0]
  have "\<forall>xs. \<exists>b'. lookup (run_ops quiet xs (snd (sc_packageDidExecute quiet 0 ''A'' ?s))) ''B''
                     = Some b' \<and> \<not> isExecuted b'"
    by (elim conjE)
  then have "\<exists>b'. lookup (run_ops quiet [LoadPackage ''B'' Undefined Undefined [],
                                         PackageDidLoad ''B'']
                            (snd (sc_packageDidExecute quiet 0 ''A'' ?s))) ''B''
                     = Some b' \<and> \<not> isExecuted b'"
    by (rule spec)
  with after show ?thesis by simp
qed

text \<open>
  Claim C3 and the code part ways on a dependent that is not yet registered with the
  package when the package fails. A package enters the \<^verbatim>\<open>dependents\<close> of its
  dependencies only when its own script has loaded, and \<^verbatim>\<open>_sc_packageDidExecute\<close>
  walks nothing but that list. Here \<open>B\<close> depends solely on \<open>A\<close>, and the code of \<open>A\<close>
  throws. In the first four facts \<open>A\<close> is requested, loads and fails before \<open>B\<close> is
  requested: \<open>A\<close> is marked as failed; after its notification \<open>B\<close> is not poisoned;
  after \<open>B\<close> has been requested and has loaded it still is not, although it lists \<open>A\<close>
  and will wait for it for good; and \<open>A\<close> now has \<open>B\<close> among its dependents, too late.
  The last two facts are the paths beside this one, which do what this one misses: when
  \<open>B\<close> loads first and \<open>A\<close> fails afterwards, \<open>B\<close> is poisoned, as the claim says; and
  when \<open>B\<close> loads after \<open>A\<close> has executed well, \<open>B\<close> is not left waiting but is
  executed.
\<close>

theorem unregistered_dependent_is_not_poisoned:
  "map_option (\<lambda>p. (didFailToEvaluate p, isExecuted p))
     (lookup (run_ops raising
                [LoadPackage ''A'' Undefined Undefined [], PackageDidLoad ''A'']
                \<lparr>manifest = [(''A'', fresh\<lparr>source := Some [(''other'', ''boom()'')]\<rparr>),
                             (''B'', fresh\<lparr>dependencies := Some [''A''],
                                           source := Some [(''other'', ''b()'')]\<rparr>)],
                 trace = []\<rparr>) ''A'')
     = Some (True, False)
   \<and> map_option (\<lambda>p. (dependencies p, doNotExecute p, failedDependencies p))
     (lookup (run_ops raising
                [LoadPackage ''A'' Undefined Undefined [], PackageDidLoad ''A'']
                \<lparr>manifest = [(''A'', fresh\<lparr>source := Some [(''other'', ''boom()'')]\<rparr>),
                             (''B'', fresh\<lparr>dependencies := Some [''A''],
                                           source := Some [(''other'', ''b()'')]\<rparr>)],
                 trace = []\<rparr>) ''B'')
     = Some (Some [''A''], False, None)
   \<and> map_option (\<lambda>p. (dependencies p, doNotExecute p, failedDependencies p, isExecuted p))
     (lookup (run_ops raising
                [LoadPackage ''A'' Undefined Undefined [], PackageDidLoad ''A'',
                 LoadPackage ''B'' Undefined Undefined [], PackageDidLoad ''B'']
                \<lparr>manifest = [(''A'', fresh\<lparr>source := Some [(''other'', ''boom()'')]\<rparr>),
                             (''B'', fresh\<lparr>dependencies := Some [''A''],
                                           source := Some [(''other'', ''b()'')]\<rparr>)],
                 trace = []\<rparr>) ''B'')
     = Some (Some [''A''], False, None, False)
   \<and> map_option dependents
     (lookup (run_ops raising
                [LoadPackage ''A'' Undefined Undefined [], PackageDidLoad ''A'',
                 LoadPackage ''B'' Undefined Undefined [], PackageDidLoad ''B'']
                \<lparr>manifest = [(''A'', fresh\<lparr>source := Some [(''other'', ''boom()'')]\<rparr>),
                             (''B'', fresh\<lparr>dependencies := Some [''A''],
                                           source := Some [(''other'', ''b()'')]\<rparr>)],
                 trace = []\<rparr>) ''A'')
     = Some (Some [''B''])
   \<and> map_option (\<lambda>p. (dependencies p, doNotExecute p, failedDependencies p, isExecuted p))
     (lookup (run_ops raising
                [LoadPackage ''B'' Undefined Undefined [], PackageDidLoad ''B'',
                 PackageDidLoad ''A'']
                \<lparr>manifest = [(''A'', fresh\<lparr>source := Some [(''other'', ''boom()'')]\<rparr>),
                             (''B'', fresh\<lparr>dependencies := Some [''A''],
                                           source := Some [(''other'', ''b()'')]\<rparr>)],
                 trace = []\<rparr>) ''B'')
     = Some (Some [''A''], True, Some [''A''], False)
   \<and> map_option (\<lambda>p. (dependencies p, doNotExecute p, failedDependencies p, isExecuted p))
     (lookup (run_ops quiet
                [LoadPackage ''A'' Undefined Undefined [], PackageDidLoad ''A'',
                 LoadPackage ''B'' Undefined Undefined [], PackageDidLoad ''B'']
                \<lparr>manifest = [(''A'', fresh\<lparr>source := Some [(''other'', ''boom()'')]\<rparr>),
                             (''B'', fresh\<lparr>dependencies := Some [''A''],
                                           source := Some [(''other'', ''b()'')]\<rparr>)],
                 trace = []\<rparr>) ''B'')
     = Some (None, False, None, True)"
  by (simp add: fuel_for_def source_size_def loadPackage_head_def isLoaded_fn_def
      registerCallbackForPackage_def make_callback_def loadJavaScript_def sc_urlForPackage_def
      sc_packageDidLoad_def sc_dependenciesMetForPackage_def sc_loadDependenciesForPackage_def
      evaluate_source_def parts_for_def flag_set_def PACKAGE_MODE_NORMAL_def
      didExecute_head_def sc_invokeCallbacksForPackage_def didExecute_step_def
      Let_def lookup_def modify_def log_info_def log_warn_def warn_def emit_def
      raising_def quiet_def fresh_def AList.delete_eq)

section \<open>The reachable states\<close>

lemma stable_refl [simp]: "stable s s"
  by (simp add: stable_def)

lemma stable_trans: "stable s t \<Longrightarrow> stable t u \<Longrightarrow> stable s u"
  by (simp add: stable_def)

lemma consistent_same_manifest: "manifest s' = manifest s \<Longrightarrow> consistent s' = consistent s"
  by (simp add: consistent_def failed_in_def lookup_def)

lemma stable_same_manifest: "manifest s' = manifest s \<Longrightarrow> stable s s'"
  by (simp add: stable_def failed_in_def executed_in_def lookup_def)

lemma stable_same_manifest_left: "manifest s' = manifest s \<Longrightarrow> stable s' t = stable s t"
  by (simp add: stable_def failed_in_def executed_in_def lookup_def)

lemma failed_in_same_manifest: "manifest s' = manifest s \<Longrightarrow> failed_in s' k = failed_in s k"
  by (simp add: failed_in_def lookup_def)

lemma executed_in_same_manifest: "manifest s' = manifest s \<Longrightarrow> executed_in s' k = executed_in s k"
  by (simp add: executed_in_def lookup_def)

lemma consistent_log [simp]:
  "consistent (emit ev s) = consistent s"
  "consistent (warn site n s) = consistent s"
  "consistent (log_info e site n s) = consistent s"
  "consistent (log_warn e site n s) = consistent s"
  by (rule consistent_same_manifest, simp)+

lemma stable_log [simp]:
  "stable (emit ev s) t = stable s t"
  "stable (warn site n s) t = stable s t"
  "stable (log_info e site n s) t = stable s t"
  "stable (log_warn e site n s) t = stable s t"
  by (rule stable_same_manifest_left, simp)+

lemma stable_log_right [simp]:
  "stable t (emit ev s) = stable t s"
  "stable t (warn site n s) = stable t s"
  "stable t (log_info e site n s) = stable t s"
  "stable t (log_warn e site n s) = stable t s"
  by (simp_all add: stable_def failed_in_def executed_in_def)

lemma failed_in_log [simp]:
  "failed_in (log_info e site n s) k = failed_in s k"
  "failed_in (log_warn e site n s) k = failed_in s k"
  "executed_in (log_info e site n s) k = executed_in s k"
  "executed_in (log_warn e site n s) k = executed_in s k"
  by (simp_all add: failed_in_def executed_in_def)

lemma failed_in_modify:
  "lookup s k = Some p \<Longrightarrow>
     failed_in (modify k f s) x =
       (if x = k then didFailToEvaluate (f p) \<and> \<not> isExecuted (f p) else failed_in s x)"
  by (simp add: failed_in_def lookup_modify)

lemma consistent_modify:
  assumes c: "consistent s" and p: "lookup s k = Some p"
    and a: "isExecuted (f p) \<longrightarrow> isReady (f p) \<and> \<not> didFailToEvaluate (f p)"
    and b: "isReady (f p) \<longrightarrow> declared (f p) = []"
    and f: "doNotExecute (f p) \<or> failedDependencies (f p) \<noteq> None \<longrightarrow>
              (\<exists>x \<in> set (declared (f p)).
                 if x = k then didFailToEvaluate (f p) \<and> \<not> isExecuted (f p) else failed_in s x)"
    and d: "didFailToEvaluate p \<and> \<not> isExecuted p \<longrightarrow>
              didFailToEvaluate (f p) \<and> \<not> isExecuted (f p)"
  shows "consistent (modify k f s)"
  unfolding consistent_def
proof (intro allI impI)
  fix k' p'
  assume l: "lookup (modify k f s) k' = Some p'"
  have keep: "failed_in (modify k f s) x" if "failed_in s x" for x
  proof (cases "x = k")
    case True
    with that p have "didFailToEvaluate p \<and> \<not> isExecuted p"
      by (simp add: failed_in_def)
    with d True p show ?thesis by (simp add: failed_in_modify)
  next
    case False
    with that p show ?thesis by (simp add: failed_in_modify)
  qed
  show "(isExecuted p' \<longrightarrow> isReady p' \<and> \<not> didFailToEvaluate p')
        \<and> (isReady p' \<longrightarrow> declared p' = [])
        \<and> (doNotExecute p' \<or> failedDependencies p' \<noteq> None \<longrightarrow>
             (\<exists>x \<in> set (declared p'). failed_in (modify k f s) x))"
  proof (cases "k' = k")
    case True
    with l p have p': "p' = f p" by (simp add: lookup_modify)
    show ?thesis
      unfolding p' using a b f p by (auto simp: failed_in_modify)
  next
    case False
    with l have "lookup s k' = Some p'" by (simp add: lookup_modify)
    with c have "(isExecuted p' \<longrightarrow> isReady p' \<and> \<not> didFailToEvaluate p')
        \<and> (isReady p' \<longrightarrow> declared p' = [])
        \<and> (doNotExecute p' \<or> failedDependencies p' \<noteq> None \<longrightarrow>
             (\<exists>x \<in> set (declared p'). failed_in s x))"
      unfolding consistent_def by blast
    with keep show ?thesis by blast
  qed
qed

lemma stable_modify:
  assumes "\<And>p. lookup s k = Some p \<Longrightarrow>
             (isExecuted p \<longrightarrow> isExecuted (f p))
             \<and> (didFailToEvaluate p \<and> \<not> isExecuted p \<longrightarrow>
                  didFailToEvaluate (f p) \<and> \<not> isExecuted (f p))"
  shows "stable s (modify k f s)"
  using assms
  by (auto simp: stable_def failed_in_def executed_in_def lookup_modify)

text \<open>An assignment to a property that the invariant does not read.\<close>

lemma modify_unread:
  assumes "\<And>p. isExecuted (f p) = isExecuted p \<and> isReady (f p) = isReady p
               \<and> didFailToEvaluate (f p) = didFailToEvaluate p
               \<and> dependencies (f p) = dependencies p
               \<and> doNotExecute (f p) = doNotExecute p
               \<and> failedDependencies (f p) = failedDependencies p"
  shows "consistent (modify k f s) = consistent s"
    and "stable t (modify k f s) = stable t s"
    and "stable (modify k f s) t = stable s t"
    and "failed_in (modify k f s) x = failed_in s x"
    and "executed_in (modify k f s) x = executed_in s x"
proof -
  have l: "lookup (modify k f s) k' = map_option (\<lambda>p. if k' = k then f p else p) (lookup s k')"
    for k'
    by (cases "lookup s k'") (auto simp: lookup_modify option.map_ident)
  show fi: "failed_in (modify k f s) x = failed_in s x" for x
    using assms by (cases "lookup s x") (auto simp: failed_in_def l)
  show ei: "executed_in (modify k f s) x = executed_in s x" for x
    using assms by (cases "lookup s x") (auto simp: executed_in_def l)
  show "stable t (modify k f s) = stable t s"
    by (simp add: stable_def fi ei)
  show "stable (modify k f s) t = stable s t"
    by (simp add: stable_def fi ei)
  have d: "declared (f p) = declared p" for p
    using assms [of p] by (simp add: declared_def)
  show "consistent (modify k f s) = consistent s"
  proof
    assume c: "consistent (modify k f s)"
    show "consistent s"
      unfolding consistent_def
    proof (intro allI impI)
      fix k' p assume lp: "lookup s k' = Some p"
      then have "lookup (modify k f s) k' = Some (if k' = k then f p else p)"
        by (simp add: l)
      with c have "(isExecuted (if k' = k then f p else p) \<longrightarrow>
            isReady (if k' = k then f p else p) \<and> \<not> didFailToEvaluate (if k' = k then f p else p))
        \<and> (isReady (if k' = k then f p else p) \<longrightarrow> declared (if k' = k then f p else p) = [])
        \<and> (doNotExecute (if k' = k then f p else p)
              \<or> failedDependencies (if k' = k then f p else p) \<noteq> None \<longrightarrow>
             (\<exists>x \<in> set (declared (if k' = k then f p else p)). failed_in (modify k f s) x))"
        unfolding consistent_def by blast
      then show "(isExecuted p \<longrightarrow> isReady p \<and> \<not> didFailToEvaluate p)
        \<and> (isReady p \<longrightarrow> declared p = [])
        \<and> (doNotExecute p \<or> failedDependencies p \<noteq> None \<longrightarrow>
             (\<exists>x \<in> set (declared p). failed_in s x))"
        using assms [of p] d [of p] by (cases "k' = k") (simp_all add: fi)
    qed
  next
    assume c: "consistent s"
    show "consistent (modify k f s)"
      unfolding consistent_def
    proof (intro allI impI)
      fix k' p' assume "lookup (modify k f s) k' = Some p'"
      then obtain p where lp: "lookup s k' = Some p" and p': "p' = (if k' = k then f p else p)"
        by (cases "lookup s k'") (auto simp: l)
      from c lp have "(isExecuted p \<longrightarrow> isReady p \<and> \<not> didFailToEvaluate p)
        \<and> (isReady p \<longrightarrow> declared p = [])
        \<and> (doNotExecute p \<or> failedDependencies p \<noteq> None \<longrightarrow>
             (\<exists>x \<in> set (declared p). failed_in s x))"
        unfolding consistent_def by blast
      then show "(isExecuted p' \<longrightarrow> isReady p' \<and> \<not> didFailToEvaluate p')
        \<and> (isReady p' \<longrightarrow> declared p' = [])
        \<and> (doNotExecute p' \<or> failedDependencies p' \<noteq> None \<longrightarrow>
             (\<exists>x \<in> set (declared p'). failed_in (modify k f s) x))"
        unfolding p' using assms [of p] d [of p] by (cases "k' = k") (simp_all add: fi)
    qed
  qed
qed


lemma declared_update [simp]:
  "declared (p\<lparr>isReady := r\<rparr>) = declared p"
  "declared (p\<lparr>isExecuted := x\<rparr>) = declared p"
  "declared (p\<lparr>didFailToEvaluate := x\<rparr>) = declared p"
  "declared (p\<lparr>doNotExecute := x\<rparr>) = declared p"
  "declared (p\<lparr>failedDependencies := fs\<rparr>) = declared p"
  "declared (p\<lparr>source := src\<rparr>) = declared p"
  "declared (p\<lparr>dependencies := None\<rparr>) = []"
  "declared (p\<lparr>dependencies := Some ds\<rparr>) = ds"
  by (simp_all add: declared_def)

lemma unread_registerCallback:
  "consistent (registerCallbackForPackage e k target m args s) = consistent s"
  "stable t (registerCallbackForPackage e k target m args s) = stable t s"
  by (auto simp: registerCallbackForPackage_def modify_unread split: option.splits)

lemma unread_invokeCallbacks:
  "consistent (snd (sc_invokeCallbacksForPackage e k s)) = consistent s"
  "stable t (snd (sc_invokeCallbacksForPackage e k s)) = stable t s"
proof -
  have c: "consistent (invokeCallbacks_loop e k cbs s) = consistent s" for cbs
    by (rule consistent_same_manifest) simp
  have "stable (invokeCallbacks_loop e k cbs s) t = stable s t" for cbs t
    by (rule stable_same_manifest_left) simp
  have r: "stable t (invokeCallbacks_loop e k cbs s) = stable t s" for cbs
    by (simp add: stable_def failed_in_def executed_in_def)
  show "consistent (snd (sc_invokeCallbacksForPackage e k s)) = consistent s"
    by (cases "lookup s k")
       (simp_all add: sc_invokeCallbacksForPackage_def Let_def modify_unread c)
  show "stable t (snd (sc_invokeCallbacksForPackage e k s)) = stable t s"
    by (cases "lookup s k")
       (simp_all add: sc_invokeCallbacksForPackage_def Let_def modify_unread r)
qed

lemma unread_loadJavaScript:
  "consistent (loadJavaScript e k s) = consistent s"
  "stable t (loadJavaScript e k s) = stable t s"
  by (auto simp: loadJavaScript_def sc_urlForPackage_def modify_unread split: option.splits)

lemma inv_loadPackage_head:
  "consistent (snd (loadPackage_head e k target m args s)) = consistent s"
  "stable t (snd (loadPackage_head e k target m args s)) = stable t s"
  "fst (loadPackage_head e k target m args s) = Evaluate \<Longrightarrow>
     \<exists>p. lookup (snd (loadPackage_head e k target m args s)) k = Some p \<and> isReady p"
proof -
  let ?s2 = "log_info e ''loadPackage: package already loaded and ready'' k
               (log_info e ''loadPackage: package already loaded'' k
                  (log_info e ''loadPackage'' k s))"
  let ?c = "sc_invokeCallbacksForPackage e k (registerCallbackForPackage e k target m args ?s2)"
  obtain rc sc where c: "?c = (rc, sc)" by (cases ?c)
  have c1: "consistent sc = consistent s"
    using unread_invokeCallbacks(1) [of e k "registerCallbackForPackage e k target m args ?s2"] c
    by (simp add: unread_registerCallback)
  have c2: "stable t sc = stable t s"
    using unread_invokeCallbacks(2) [of t e k "registerCallbackForPackage e k target m args ?s2"] c
    by (simp add: unread_registerCallback)
  show "consistent (snd (loadPackage_head e k target m args s)) = consistent s"
    using c c1
    by (auto simp: loadPackage_head_def Let_def unread_loadJavaScript unread_registerCallback
        split: option.splits result.splits)
  show "stable t (snd (loadPackage_head e k target m args s)) = stable t s"
    using c c2
    by (auto simp: loadPackage_head_def Let_def unread_loadJavaScript unread_registerCallback
        split: option.splits result.splits)
  show "\<exists>p. lookup (snd (loadPackage_head e k target m args s)) k = Some p \<and> isReady p"
    if "fst (loadPackage_head e k target m args s) = Evaluate"
    using that c
    by (auto simp: loadPackage_head_def Let_def split: option.splits if_splits result.splits)
qed

lemma dependenciesMet_loop_not_ready:
  "(\<And>p. lookup s k = Some p \<Longrightarrow> \<not> isReady p) \<Longrightarrow> snd (dependenciesMet_loop k ds ready s) = s"
proof (induction ds arbitrary: ready)
  case Nil
  show ?case by simp
next
  case (Cons d ds)
  have "modify k (\<lambda>p. p\<lparr>isReady := False\<rparr>) s = s"
  proof (cases "lookup s k")
    case None
    then show ?thesis by (simp add: modify_def)
  next
    case (Some p)
    with Cons.prems have "\<not> isReady p" by blast
    then have "p\<lparr>isReady := False\<rparr> = p" by (cases p) simp
    with Some show ?thesis by (intro modify_id) simp_all
  qed
  with Cons show ?case by (auto split: option.splits)
qed

lemma inv_dependenciesMet:
  assumes c: "consistent s"
  shows "consistent (snd (sc_dependenciesMetForPackage e k s))"
    and "stable s (snd (sc_dependenciesMetForPackage e k s))"
    and "fst (sc_dependenciesMetForPackage e k s) = Return True \<Longrightarrow>
           \<exists>p. lookup (snd (sc_dependenciesMetForPackage e k s)) k = Some p \<and> isReady p"
proof -
  let ?s = "log_info e ''_sc_dependenciesMetForPackage'' k s"
  let ?r = "sc_dependenciesMetForPackage e k s"
  have all: "consistent (snd ?r) \<and> stable s (snd ?r)
             \<and> (fst ?r = Return True \<longrightarrow> (\<exists>p. lookup (snd ?r) k = Some p \<and> isReady p))"
  proof (cases "lookup s k")
    case None
    with c show ?thesis by (simp add: sc_dependenciesMetForPackage_def Let_def)
  next
    case (Some p)
    from c Some have J: "isExecuted p \<longrightarrow> isReady p \<and> \<not> didFailToEvaluate p"
      "isReady p \<longrightarrow> declared p = []"
      "doNotExecute p \<or> failedDependencies p \<noteq> None \<longrightarrow> (\<exists>f \<in> set (declared p). failed_in s f)"
      unfolding consistent_def by blast+
    show ?thesis
    proof (cases "declared p = []")
      case True
      let ?t = "log_info e ''_sc_dependenciesMetForPackage: no dependencies found'' k ?s"
      have res: "?r = (Return True, modify k (\<lambda>p. p\<lparr>isReady := True\<rparr>) ?t)"
        using Some True
        by (auto simp: sc_dependenciesMetForPackage_def Let_def declared_def
            split: option.splits list.splits)
      have ct: "consistent ?t" using c by simp
      have pt: "lookup ?t k = Some p" using Some by simp
      have unflagged: "\<not> doNotExecute p \<and> failedDependencies p = None"
        using J(3) True by auto
      have "consistent (modify k (\<lambda>p. p\<lparr>isReady := True\<rparr>) ?t)"
        by (rule consistent_modify [OF ct pt]) (use J(1) True unflagged in simp_all)
      moreover have "stable ?t (modify k (\<lambda>p. p\<lparr>isReady := True\<rparr>) ?t)"
        by (rule stable_modify) simp
      ultimately show ?thesis
        using pt by (simp add: res lookup_modify)
    next
      case False
      then obtain d ds' where ds: "dependencies p = Some (d # ds')"
        by (cases "dependencies p"; cases "declared p") (auto simp: declared_def)
      from False J(2) have nr: "\<not> isReady p" by blast
      have same: "snd (dependenciesMet_loop k (d # ds') True ?s) = ?s"
        by (rule dependenciesMet_loop_not_ready) (use Some nr in simp)
      obtain r where loop: "dependenciesMet_loop k (d # ds') True ?s = (r, ?s)"
        using same by (cases "dependenciesMet_loop k (d # ds') True ?s") simp
      show ?thesis
      proof (cases "r = Return True")
        case True
        let ?t = "log_info e ''_sc_dependenciesMetForPackage: package is ready'' k ?s"
        have res: "?r = (Return True,
                         modify k (\<lambda>p. p\<lparr>dependencies := None, isReady := True\<rparr>) ?t)"
          using Some ds loop True
          by (simp add: sc_dependenciesMetForPackage_def Let_def
              del: dependenciesMet_loop.simps)
        have allex: "\<forall>x \<in> set (d # ds'). \<exists>q. lookup s x = Some q \<and> isExecuted q"
          using dependenciesMet_loop_True_iff [of k "d # ds'" True ?s] loop True by simp
        have unflagged: "\<not> (doNotExecute p \<or> failedDependencies p \<noteq> None)"
        proof
          assume "doNotExecute p \<or> failedDependencies p \<noteq> None"
          with J(3) obtain f where "f \<in> set (declared p)" "failed_in s f" by blast
          with allex ds show False by (auto simp: declared_def failed_in_def)
        qed
        have ct: "consistent ?t" using c by simp
        have pt: "lookup ?t k = Some p" using Some by simp
        have "consistent (modify k (\<lambda>p. p\<lparr>dependencies := None, isReady := True\<rparr>) ?t)"
          by (rule consistent_modify [OF ct pt]) (use J(1) unflagged in simp_all)
        moreover have "stable ?t (modify k (\<lambda>p. p\<lparr>dependencies := None, isReady := True\<rparr>) ?t)"
          by (rule stable_modify) simp
        ultimately show ?thesis
          using pt by (simp add: res lookup_modify)
      next
        case False
        have "snd ?r = ?s \<or> snd ?r =
                log_info e ''_sc_dependenciesMetForPackage: some dependencies not executed'' k ?s"
          and "fst ?r \<noteq> Return True"
          using Some ds loop False
          by (cases r; auto simp: sc_dependenciesMetForPackage_def Let_def
              simp del: dependenciesMet_loop.simps)+
        with c show ?thesis by auto
      qed
    qed
  qed
  from all show "consistent (snd ?r)" "stable s (snd ?r)" by blast+
  from all show "\<exists>p. lookup (snd ?r) k = Some p \<and> isReady p" if "fst ?r = Return True"
    using that by blast
qed


lemma inv_evaluate_source:
  assumes c: "consistent s"
  shows "consistent (snd (evaluate_source e k s))"
    and "stable s (snd (evaluate_source e k s))"
    and "(\<And>p. lookup s k = Some p \<Longrightarrow> isReady p) \<Longrightarrow>
           lookup (snd (evaluate_source e k s)) k = Some p' \<Longrightarrow> isReady p'"
proof -
  let ?s = "log_info e ''_sc_evaluateJavaScriptForPackage'' k s"
  let ?r = "evaluate_source e k s"
  have all: "consistent (snd ?r) \<and> stable s (snd ?r)
             \<and> (\<forall>q. lookup (snd ?r) k = Some q \<longrightarrow> (\<exists>p. lookup s k = Some p \<and> isReady q = isReady p))"
  proof (cases "lookup s k")
    case None
    with c show ?thesis by (simp add: evaluate_source_def Let_def)
  next
    case (Some p)
    show ?thesis
    proof (cases "isExecuted p \<or> source p = None")
      case True
      with Some c show ?thesis by (auto simp: evaluate_source_def Let_def)
    next
      case False
      then obtain src where src: "source p = Some src" "\<not> isExecuted p" by auto
      obtain code src' where acc: "accumulate (parts_for (PACKAGE_MODE e)) [] src = (code, src')"
        by (cases "accumulate (parts_for (PACKAGE_MODE e)) [] src")
      let ?h = "\<lambda>p. p\<lparr>source := Some src'\<rparr>"
      let ?s1 = "modify k ?h ?s"
      have c1: "consistent ?s1" using c by (simp add: modify_unread)
      have p1: "lookup ?s1 k = Some (?h p)" using Some by (simp add: lookup_modify)
      have st1: "stable s ?s1" by (simp add: modify_unread)
      from c Some have J: "isReady p \<longrightarrow> declared p = []"
        "doNotExecute p \<or> failedDependencies p \<noteq> None \<longrightarrow> (\<exists>f \<in> set (declared p). failed_in s f)"
        unfolding consistent_def by blast+
      have fi1: "failed_in ?s1 x = failed_in s x" for x by (simp add: modify_unread)
      show ?thesis
      proof (cases "code = []")
        case True
        have "modify k (\<lambda>p. p\<lparr>isExecuted := False\<rparr>) ?s1 = ?s1"
          using src(2) by (intro modify_id [OF p1]) (cases p, simp)
        then have "snd ?r =
            log_warn e ''_sc_evaluateJavaScriptForPackage: no package source found'' k ?s1"
          using Some src acc True by (simp add: evaluate_source_def Let_def)
        with c1 st1 p1 Some show ?thesis by simp
      next
        case False
        show ?thesis
        proof (cases "sink_throws e (trace ?s1) code")
          case False
          then have "snd ?r = emit (Exec code) ?s1"
            using Some src acc \<open>code \<noteq> []\<close> by (simp add: evaluate_source_def Let_def)
          with c1 st1 p1 Some show ?thesis by (simp add: stable_def failed_in_def executed_in_def)
        next
          case True
          let ?t = "log_info e code k
                      (warn ''Caught error when processing package source'' k
                         (emit (Exec code) ?s1))"
          let ?g = "\<lambda>p. p\<lparr>isExecuted := False, didFailToEvaluate := True\<rparr>"
          have res: "snd ?r = modify k ?g ?t"
            using Some src acc \<open>code \<noteq> []\<close> True by (simp add: evaluate_source_def Let_def)
          have ct: "consistent ?t" using c1 by simp
          have pt: "lookup ?t k = Some (?h p)" using p1 by simp
          have fit: "failed_in ?t x = failed_in s x" for x
            using fi1 [of x] by (simp add: failed_in_def)
          have cm: "consistent (modify k ?g ?t)"
            by (rule consistent_modify [OF ct pt]) (use J fit in auto)
          have sm: "stable ?t (modify k ?g ?t)"
            by (rule stable_modify) (use pt src(2) in simp)
          have st: "stable s ?t"
            using st1 by (simp add: stable_def failed_in_def executed_in_def)
          from st sm have "stable s (modify k ?g ?t)" by (rule stable_trans)
          with cm pt Some show ?thesis by (simp add: res lookup_modify)
        qed
      qed
    qed
  qed
  from all show "consistent (snd ?r)" "stable s (snd ?r)" by blast+
  show "isReady p'" if "\<And>p. lookup s k = Some p \<Longrightarrow> isReady p" "lookup (snd ?r) k = Some p'"
    using all that by auto
qed

lemma inv_didExecute_head:
  assumes c: "consistent s" and ready: "\<forall>p. lookup s k = Some p \<longrightarrow> isReady p"
  shows "consistent (snd (didExecute_head e k s))"
    and "stable s (snd (didExecute_head e k s))"
    and "fst (didExecute_head e k s) = Some (didFail, ds) \<Longrightarrow>
           (didFail \<longrightarrow> failed_in (snd (didExecute_head e k s)) k)
           \<and> (\<not> didFail \<longrightarrow> executed_in (snd (didExecute_head e k s)) k)"
proof -
  let ?s0 = "log_info e ''_sc_packageDidExecute'' k s"
  let ?r = "didExecute_head e k s"
  have all: "consistent (snd ?r) \<and> stable s (snd ?r)
             \<and> (\<forall>didFail ds. fst ?r = Some (didFail, ds) \<longrightarrow>
                   (didFail \<longrightarrow> failed_in (snd ?r) k) \<and> (\<not> didFail \<longrightarrow> executed_in (snd ?r) k))"
  proof (cases "lookup s k")
    case None
    with c show ?thesis by (simp add: didExecute_head_def Let_def)
  next
    case (Some p)
    from c Some ready have J: "isExecuted p \<longrightarrow> \<not> didFailToEvaluate p"
      "declared p = []" "isReady p"
      "\<not> (doNotExecute p \<or> failedDependencies p \<noteq> None)"
      unfolding consistent_def by fastforce+
    let ?s1 = "if \<not> didFailToEvaluate p
               then modify k (\<lambda>p. p\<lparr>isExecuted := True\<rparr>) ?s0 else ?s0"
    have p0: "lookup ?s0 k = Some p" using Some by simp
    have c0: "consistent ?s0" using c by simp
    have c1: "consistent ?s1"
    proof (cases "didFailToEvaluate p")
      case True
      with c0 show ?thesis by simp
    next
      case False
      have "consistent (modify k (\<lambda>p. p\<lparr>isExecuted := True\<rparr>) ?s0)"
        by (rule consistent_modify [OF c0 p0]) (use J False in simp_all)
      with False show ?thesis by simp
    qed
    have st1: "stable s ?s1"
    proof (cases "didFailToEvaluate p")
      case True
      then show ?thesis by simp
    next
      case False
      have "stable ?s0 (modify k (\<lambda>p. p\<lparr>isExecuted := True\<rparr>) ?s0)"
        by (rule stable_modify) (use p0 False in simp)
      with False show ?thesis by simp
    qed
    have mark: "(didFailToEvaluate p \<longrightarrow> failed_in ?s1 k)
                \<and> (\<not> didFailToEvaluate p \<longrightarrow> executed_in ?s1 k)"
      using p0 J(1) by (auto simp: failed_in_def executed_in_def lookup_modify)
    let ?s2 = "snd (sc_invokeCallbacksForPackage e k ?s1)"
    have c2: "consistent ?s2" using c1 by (simp add: unread_invokeCallbacks)
    have st12: "stable ?s1 ?s2" by (simp add: unread_invokeCallbacks)
    have st2: "stable s ?s2" using st1 st12 by (rule stable_trans)
    have mark2: "(didFailToEvaluate p \<longrightarrow> failed_in ?s2 k)
                 \<and> (\<not> didFailToEvaluate p \<longrightarrow> executed_in ?s2 k)"
      using mark st12 by (auto simp: stable_def)
    have shape: "snd ?r = ?s2"
      "\<And>didFail ds. fst ?r = Some (didFail, ds) \<Longrightarrow> didFail = didFailToEvaluate p"
      using Some
      by (auto simp: didExecute_head_def Let_def split: option.splits list.splits)
    show ?thesis
      unfolding shape(1) using c2 st2 mark2 shape(2) by blast
  qed
  from all show "consistent (snd ?r)" "stable s (snd ?r)" by blast+
  from all show "(didFail \<longrightarrow> failed_in (snd ?r) k) \<and> (\<not> didFail \<longrightarrow> executed_in (snd ?r) k)"
    if "fst ?r = Some (didFail, ds)" using that by blast
qed


lemma inv_didExecute_step:
  assumes c: "consistent s"
    and f: "didFail \<longrightarrow> failed_in s k" and x: "\<not> didFail \<longrightarrow> executed_in s k"
  shows "consistent (snd (didExecute_step e k didFail d s))"
    and "stable s (snd (didExecute_step e k didFail d s))"
    and "fst (didExecute_step e k didFail d s) = Return True \<Longrightarrow>
           \<exists>q. lookup (snd (didExecute_step e k didFail d s)) d = Some q \<and> isReady q"
proof -
  let ?r = "didExecute_step e k didFail d s"
  have all: "consistent (snd ?r) \<and> stable s (snd ?r)
             \<and> (fst ?r = Return True \<longrightarrow> (\<exists>q. lookup (snd ?r) d = Some q \<and> isReady q))"
  proof (cases "lookup s d")
    case None
    with c show ?thesis by (simp add: didExecute_step_def)
  next
    case (Some q)
    show ?thesis
    proof (cases "waiting_on k q")
      case False
      then have "fst ?r = Return False \<and> manifest (snd ?r) = manifest s"
        using Some
        by (auto simp: didExecute_step_def waiting_on_def declared_def split: option.splits)
      with c consistent_same_manifest [of "snd ?r" s] stable_same_manifest [of "snd ?r" s]
      show ?thesis by simp
    next
      case True
      then obtain deps where deps: "dependencies q = Some deps" "k \<in> set deps" "\<not> isReady q"
        by (cases "dependencies q") (auto simp: waiting_on_def declared_def)
      from c Some have J: "isExecuted q \<longrightarrow> isReady q \<and> \<not> didFailToEvaluate q"
        "doNotExecute q \<or> failedDependencies q \<noteq> None \<longrightarrow> (\<exists>f \<in> set (declared q). failed_in s f)"
        unfolding consistent_def by blast+
      have dq: "declared q = deps" using deps(1) by (simp add: declared_def)
      show ?thesis
      proof (cases didFail)
        case True
        let ?g = "\<lambda>p. p\<lparr>failedDependencies :=
                         Some ((case failedDependencies p of None \<Rightarrow> [] | Some fs \<Rightarrow> fs) @ [k]),
                       doNotExecute := True\<rparr>"
        have res: "?r = (Return False, modify d ?g s)"
          using Some deps True by (simp add: didExecute_step_def)
        from f True have fk: "failed_in s k" by simp
        have w: "\<exists>x \<in> set deps. if x = d then didFailToEvaluate q \<and> \<not> isExecuted q
                                   else failed_in s x"
        proof (intro bexI [of _ k])
          show "k \<in> set deps" by (rule deps(2))
          show "if k = d then didFailToEvaluate q \<and> \<not> isExecuted q else failed_in s k"
            using fk Some by (auto simp: failed_in_def)
        qed
        have "consistent (modify d ?g s)"
          by (rule consistent_modify [OF c Some])
             (use J(1) deps(3) w dq in \<open>auto split: if_splits\<close>)
        moreover have "stable s (modify d ?g s)"
          by (rule stable_modify) simp
        ultimately show ?thesis by (simp add: res)
      next
        case False
        let ?h = "\<lambda>p. p\<lparr>dependencies := Some (remove1 k deps)\<rparr>"
        have res: "?r = sc_dependenciesMetForPackage e d (modify d ?h s)"
          using Some deps False by (simp add: didExecute_step_def)
        from x False have xk: "executed_in s k" by simp
        have w: "\<exists>y \<in> set (remove1 k deps). if y = d then didFailToEvaluate q \<and> \<not> isExecuted q
                                              else failed_in s y"
          if "doNotExecute q \<or> failedDependencies q \<noteq> None"
        proof -
          from J(2) that dq obtain y where y: "y \<in> set deps" "failed_in s y" by auto
          from y(2) xk have "y \<noteq> k" by (auto simp: failed_in_def executed_in_def)
          with y(1) have "y \<in> set (remove1 k deps)" by simp
          moreover from y(2) Some
          have "if y = d then didFailToEvaluate q \<and> \<not> isExecuted q else failed_in s y"
            by (auto simp: failed_in_def)
          ultimately show ?thesis by blast
        qed
        have c1: "consistent (modify d ?h s)"
          by (rule consistent_modify [OF c Some])
             (use J(1) deps(3) w in \<open>auto split: if_splits\<close>)
        have st1: "stable s (modify d ?h s)"
          by (rule stable_modify) simp
        note D = inv_dependenciesMet [OF c1, where e = e and k = d]
        from st1 D(2) have "stable s (snd (sc_dependenciesMetForPackage e d (modify d ?h s)))"
          by (rule stable_trans)
        with D(1) D(3) show ?thesis by (simp add: res)
      qed
    qed
  qed
  from all show "consistent (snd ?r)" "stable s (snd ?r)" by blast+
  from all show "\<exists>q. lookup (snd ?r) d = Some q \<and> isReady q" if "fst ?r = Return True"
    using that by blast
qed

lemma stable_marks:
  "stable s t \<Longrightarrow> failed_in s k \<Longrightarrow> failed_in t k"
  "stable s t \<Longrightarrow> executed_in s k \<Longrightarrow> executed_in t k"
  by (simp_all add: stable_def)

lemma consistent_cluster:
  "consistent s \<Longrightarrow>
     consistent (snd (loadPackage e n k target m args s))
     \<and> stable s (snd (loadPackage e n k target m args s))"
  "consistent s \<Longrightarrow> (\<forall>p. lookup s k = Some p \<longrightarrow> isReady p) \<Longrightarrow>
     consistent (snd (sc_evaluateJavaScriptForPackage e n k s))
     \<and> stable s (snd (sc_evaluateJavaScriptForPackage e n k s))"
  "consistent s \<Longrightarrow> (\<forall>p. lookup s k = Some p \<longrightarrow> isReady p) \<Longrightarrow>
     consistent (snd (sc_packageDidExecute e n k s))
     \<and> stable s (snd (sc_packageDidExecute e n k s))"
  "consistent s \<Longrightarrow> (didFail \<longrightarrow> failed_in s k) \<Longrightarrow> (\<not> didFail \<longrightarrow> executed_in s k) \<Longrightarrow>
     consistent (snd (didExecute_loop e n k didFail ds s))
     \<and> stable s (snd (didExecute_loop e n k didFail ds s))"
proof (induction e n k target m args s and e n k s and e n k s and e n k didFail ds s
    rule: loadPackage_sc_evaluateJavaScriptForPackage_sc_packageDidExecute_didExecute_loop.induct)
  case (1 e n k target m args s)
  obtain x s1 where h: "loadPackage_head e k target m args s = (x, s1)"
    by (cases "loadPackage_head e k target m args s")
  have c1: "consistent s1" and st1: "stable s s1"
    using inv_loadPackage_head(1) [of e k target m args s]
      inv_loadPackage_head(2) [of s e k target m args s] h "1.prems" by simp_all
  show ?case
  proof (cases x)
    case (Finish r)
    with h c1 st1 show ?thesis by simp
  next
    case Evaluate
    have ready: "\<forall>p. lookup s1 k = Some p \<longrightarrow> isReady p"
      using inv_loadPackage_head(3) [of e k target m args s] h Evaluate by auto
    from "1.IH" [OF h [symmetric] Evaluate c1 ready]
    have "consistent (snd (sc_evaluateJavaScriptForPackage e n k s1))"
      and "stable s (snd (sc_evaluateJavaScriptForPackage e n k s1))"
      using st1 by (auto intro: stable_trans)
    with h Evaluate show ?thesis
      by (cases "sc_evaluateJavaScriptForPackage e n k s1") (auto split: result.splits)
  qed
next
  case (2 e n k s)
  obtain x s1 where h: "evaluate_source e k s = (x, s1)"
    by (cases "evaluate_source e k s")
  have c1: "consistent s1" and st1: "stable s s1"
    using inv_evaluate_source(1,2) [OF "2.prems"(1), where e = e and k = k] h by simp_all
  have ready: "\<forall>p. lookup s1 k = Some p \<longrightarrow> isReady p"
  proof (intro allI impI)
    fix p' assume "lookup s1 k = Some p'"
    with h have "lookup (snd (evaluate_source e k s)) k = Some p'" by simp
    from inv_evaluate_source(3) [OF "2.prems"(1) _ this] "2.prems"(2)
    show "isReady p'" by blast
  qed
  show ?case
  proof (cases x)
    case True
    then have xT: "x = True" by simp
    from "2.IH" [OF h [symmetric] xT c1 ready] st1 h True show ?thesis
      by (auto intro: stable_trans)
  next
    case False
    with h c1 st1 show ?thesis by simp
  qed
next
  case (3 e n k s)
  obtain x s1 where h: "didExecute_head e k s = (x, s1)"
    by (cases "didExecute_head e k s")
  have c1: "consistent s1" and st1: "stable s s1"
    using inv_didExecute_head(1,2) [OF "3.prems", where e = e] h by simp_all
  show ?case
  proof (cases x)
    case None
    with h c1 st1 show ?thesis by simp
  next
    case (Some fd)
    obtain didFail ds where fd: "fd = (didFail, ds)" by (cases fd)
    have marks: "(didFail \<longrightarrow> failed_in s1 k) \<and> (\<not> didFail \<longrightarrow> executed_in s1 k)"
      using inv_didExecute_head(3) [OF "3.prems", where e = e and didFail = didFail and ds = ds] h Some fd by simp
    from "3.IH" [OF h [symmetric] Some fd [symmetric] c1] marks st1 h Some fd
    show ?thesis by (auto intro: stable_trans)
  qed
next
  case (4 e n k didFail s)
  then show ?case by simp
next
  case (5 e n k didFail d ds s)
  obtain r s1 where h: "didExecute_step e k didFail d s = (r, s1)"
    by (cases "didExecute_step e k didFail d s")
  note S = inv_didExecute_step [OF "5.prems", where e = e and d = d]
  have c1: "consistent s1" and st1: "stable s s1"
    using S(1,2) h by simp_all
  have f1: "didFail \<longrightarrow> failed_in s1 k" and x1: "\<not> didFail \<longrightarrow> executed_in s1 k"
    using "5.prems"(2,3) stable_marks [OF st1] by blast+
  show ?case
  proof (cases r)
    case (Return met)
    show ?thesis
    proof (cases met)
      case False
      then have mF: "met = False" by simp
      from "5.IH"(3) [OF h [symmetric] Return mF c1 f1 x1] st1 h Return False
      show ?thesis by (auto intro: stable_trans)
    next
      case True
      then have mT: "met = True" by simp
      show ?thesis
      proof (cases n)
        case 0
        with h Return True c1 st1 show ?thesis by simp
      next
        case (Suc n')
        obtain r2 s2 where l: "loadPackage e n' d Undefined Undefined [] s1 = (r2, s2)"
          by (cases "loadPackage e n' d Undefined Undefined [] s1")
        from "5.IH"(1) [OF h [symmetric] Return mT Suc c1] l
        have c2: "consistent s2" and st12: "stable s1 s2" by simp_all
        from st1 st12 have st2: "stable s s2" by (rule stable_trans)
        have f2: "didFail \<longrightarrow> failed_in s2 k" and x2: "\<not> didFail \<longrightarrow> executed_in s2 k"
          using f1 x1 stable_marks [OF st12] by blast+
        show ?thesis
        proof (cases r2)
          case (Return b)
          from "5.IH"(2) [OF h [symmetric] \<open>r = Return met\<close> mT Suc l [symmetric] Return c2 f2 x2]
            st2 h \<open>r = Return met\<close> True Suc l Return
          show ?thesis by (auto intro: stable_trans)
        next
          case (Throw x)
          with h \<open>r = Return met\<close> True Suc l c2 st2 show ?thesis by simp
        next
          case OutOfFuel
          with h \<open>r = Return met\<close> True Suc l c2 st2 show ?thesis by simp
        qed
      qed
    qed
  next
    case (Throw x)
    with h c1 st1 show ?thesis by simp
  next
    case OutOfFuel
    with h c1 st1 show ?thesis by simp
  qed
qed


lemma consistent_loadDependencies_loop:
  "consistent s \<Longrightarrow> consistent (snd (loadDependencies_loop e n k ds s))"
proof (induction ds arbitrary: s)
  case Nil
  then show ?case by simp
next
  case (Cons d ds)
  show ?case
  proof (cases "lookup s d")
    case None
    with Cons.prems show ?thesis by simp
  next
    case (Some q)
    let ?s1 = "log_info e ''_sc_loadDependenciesForPackage: loading dependency'' d
                 (modify d
                    (\<lambda>p. p\<lparr>dependents :=
                              Some ((case dependents p of None \<Rightarrow> [] | Some xs \<Rightarrow> xs) @ [k])\<rparr>) s)"
    obtain r s2 where l: "loadPackage e n d Undefined Undefined [] ?s1 = (r, s2)"
      by (cases "loadPackage e n d Undefined Undefined [] ?s1")
    have c1: "consistent ?s1" using Cons.prems by (simp add: modify_unread)
    have c2: "consistent s2"
      using consistent_cluster(1) [OF c1, of e n d Undefined Undefined "[]"] l by simp
    have unfold: "loadDependencies_loop e n k (d # ds) s =
                    (case r of Return b \<Rightarrow> loadDependencies_loop e n k ds s2
                     | Throw x \<Rightarrow> (Throw x, s2) | OutOfFuel \<Rightarrow> (OutOfFuel, s2))"
      using Some l by (simp split: result.splits)
    show ?thesis
      unfolding unfold using c2 Cons.IH [OF c2] by (cases r) simp_all
  qed
qed

lemma consistent_loadDependencies:
  "consistent s \<Longrightarrow> consistent (snd (sc_loadDependenciesForPackage e n k s))"
proof (cases "lookup s k")
  case None
  assume "consistent s"
  with None show ?thesis by (simp add: sc_loadDependenciesForPackage_def Let_def)
next
  case (Some p)
  assume c: "consistent s"
  let ?s = "log_info e ''_sc_loadDependenciesForPackage'' k s"
  show ?thesis
  proof (cases "declared p = []")
    case True
    with Some c show ?thesis
      by (auto simp: sc_loadDependenciesForPackage_def Let_def declared_def
          split: option.splits list.splits)
  next
    case False
    then obtain d ds' where ds: "dependencies p = Some (d # ds')"
      by (cases "dependencies p"; cases "declared p") (auto simp: declared_def)
    have "sc_loadDependenciesForPackage e n k s = loadDependencies_loop e n k (d # ds') ?s"
      using Some ds by (simp add: sc_loadDependenciesForPackage_def Let_def)
    with consistent_loadDependencies_loop [of ?s e n k "d # ds'"] c show ?thesis
      by simp
  qed
qed

lemma consistent_packageDidLoad:
  assumes c: "consistent s"
  shows "consistent (snd (sc_packageDidLoad e n k s))"
proof (cases "lookup s k")
  case None
  with c show ?thesis by (simp add: sc_packageDidLoad_def Let_def)
next
  case (Some p)
  let ?s1 = "modify k (\<lambda>p. p\<lparr>isLoaded := True, isLoading := False\<rparr>)
               (log_info e ''_sc_packageDidLoad'' k s)"
  obtain r s2 where d: "sc_dependenciesMetForPackage e k ?s1 = (r, s2)"
    by (cases "sc_dependenciesMetForPackage e k ?s1")
  have c1: "consistent ?s1" using c by (simp add: modify_unread)
  note D = inv_dependenciesMet [OF c1, where e = e and k = k]
  have c2: "consistent s2" using D(1) d by simp
  have ready: "\<forall>q. lookup s2 k = Some q \<longrightarrow> isReady q" if "r = Return True"
    using D(3) d that by auto
  let ?s3 = "log_info e ''_sc_packageDidLoad: dependencies met'' k s2"
  let ?s4 = "log_info e ''_sc_packageDidLoad: dependencies were not met'' k s2"
  have unfold: "sc_packageDidLoad e n k s =
      (case r of
         Return met \<Rightarrow>
           if met then
             (if (case lookup ?s3 k of None \<Rightarrow> False | Some q \<Rightarrow> isExecuted q)
              then (Return (), ?s3)
              else sc_evaluateJavaScriptForPackage e n k ?s3)
           else sc_loadDependenciesForPackage e n k ?s4
       | Throw x \<Rightarrow> (Throw x, s2)
       | OutOfFuel \<Rightarrow> (OutOfFuel, s2))"
    using Some d by (simp add: sc_packageDidLoad_def Let_def split: result.splits)
  show ?thesis
  proof (cases r)
    case (Return met)
    show ?thesis
    proof (cases met)
      case True
      have c3: "consistent ?s3" using c2 by simp
      have r3: "\<forall>q. lookup ?s3 k = Some q \<longrightarrow> isReady q"
        using ready Return True by simp
      from consistent_cluster(2) [OF c3 r3, of e n] unfold Return True c3
      show ?thesis by auto
    next
      case False
      have c4: "consistent ?s4" using c2 by simp
      from consistent_loadDependencies [OF c4, of e n k] unfold Return False
      show ?thesis by simp
    qed
  next
    case (Throw x)
    with unfold c2 show ?thesis by simp
  next
    case OutOfFuel
    with unfold c2 show ?thesis by simp
  qed
qed

lemma consistent_run_op: "consistent s \<Longrightarrow> consistent (run_op e x s)"
proof (cases x)
  case (LoadPackage k target m args)
  assume "consistent s"
  with LoadPackage consistent_cluster(1) show ?thesis by simp
next
  case (RegisterCallback k target m args)
  assume "consistent s"
  with RegisterCallback show ?thesis by (simp add: unread_registerCallback)
next
  case (LoadJavaScript k)
  assume "consistent s"
  with LoadJavaScript show ?thesis by (simp add: unread_loadJavaScript)
next
  case (PackageDidLoad k)
  assume "consistent s"
  with PackageDidLoad consistent_packageDidLoad show ?thesis by simp
qed

lemma consistent_run_ops: "consistent s \<Longrightarrow> consistent (run_ops e xs s)"
  by (induction xs arbitrary: s) (simp_all add: consistent_run_op)

lemma clean_consistent: "clean s \<Longrightarrow> consistent s"
  by (auto simp: clean_def consistent_def)

lemma reachable_consistent: "reachable e s \<Longrightarrow> consistent s"
  by (auto simp: reachable_def intro: consistent_run_ops clean_consistent)

text \<open>In a reachable state an executed record carries none of the failure flags.\<close>

lemma reachable_executed_unflagged:
  assumes "reachable e s" "lookup s k = Some p" "isExecuted p"
  shows "isReady p" "\<not> doNotExecute p" "failedDependencies p = None" "\<not> didFailToEvaluate p"
proof -
  from reachable_consistent [OF assms(1)] assms(2)
  have J: "isExecuted p \<longrightarrow> isReady p \<and> \<not> didFailToEvaluate p"
    "isReady p \<longrightarrow> declared p = []"
    "doNotExecute p \<or> failedDependencies p \<noteq> None \<longrightarrow> (\<exists>f \<in> set (declared p). failed_in s f)"
    unfolding consistent_def by blast+
  from J(1) assms(3) show "isReady p" "\<not> didFailToEvaluate p" by blast+
  with J(2,3) show "\<not> doNotExecute p" "failedDependencies p = None" by auto
qed

section \<open>\<^verbatim>\<open>loadPackage\<close> on an executed package, with callbacks that do not call back\<close>

text \<open>
  What claim C6 says holds for a callback that does not call back into the loader, and
  only for such a one. In a state the loader can reach, let the package be a record of
  the manifest that is loaded, ready and executed, and let the arguments of
  \<^verbatim>\<open>loadPackage\<close> make a callback. Then the call returns \<^verbatim>\<open>true\<close> with any fuel;
  inside the call the callbacks already queued are called and then the new one, once;
  its first argument is the package name; no code reaches the execution sink; the queue
  is deleted. Evaluation itself is guarded by \<^verbatim>\<open>isExecuted\<close>: called on this package
  it only logs.

  The claim itself is about every callback, and the code does not meet it. Let the
  package \<open>A\<close> be executed with an empty queue, and let \<^verbatim>\<open>loadPackage\<close> be called for
  \<open>A\<close> with a callback \<open>cb1\<close> that, the first time it runs, calls \<^verbatim>\<open>loadPackage\<close>
  for \<open>A\<close> with a callback \<open>cb2\<close>. The outer call pushes \<open>cb1\<close> and starts to walk the
  queue; \<open>cb1\<close> runs; the nested call pushes \<open>cb2\<close> onto the same array, walks it from
  its start, so that \<open>cb1\<close> runs again and then \<open>cb2\<close>, and deletes the queue from the
  record; the outer loop still holds the array, finds its second element and runs
  \<open>cb2\<close> again. Each of the two new callbacks is called twice within the one call.
\<close>

lemma loadPackage_executed_invokes_once:
  assumes "reachable e s" and "lookup s name = Some p" and "typeOf p = T_HASH"
    and "isLoaded p" and "isReady p" and "isExecuted p"
    and "make_callback name target m args = Some cb"
  shows "fst (loadPackage e n name target m args s) = Return True
       \<and> invocations (trace (snd (loadPackage e n name target m args s))) =
           invocations (trace s) @ queued p @ [cb]
       \<and> hd (cb_args cb) = JStr name
       \<and> executed (trace (snd (loadPackage e n name target m args s))) =
           executed (trace s)
       \<and> lookup (snd (loadPackage e n name target m args s)) name =
           Some (p\<lparr>callbacks := None\<rparr>)
       \<and> sc_evaluateJavaScriptForPackage e n name s =
           (Return (),
            warn ''_sc_evaluateJavaScriptForPackage: package already executed'' name
              (log_info e ''_sc_evaluateJavaScriptForPackage'' name s))"
  using loadPackage_executed_unflagged [OF assms(2) assms(4-6)
      reachable_executed_unflagged(2,3,4) [OF assms(1,2,6)] assms(7) assms(3)]
  .

lemma loadPackage_executed_invokes_once_example:
  "reachable quiet
     \<lparr>manifest = [(''A'', fresh\<lparr>source := Some [], isLoading := False, isLoaded := True,
                                 isReady := True, isExecuted := True\<rparr>)],
      trace = [Fetch ''/app/packages/pkg'' ''A'', Exec ''a()'']\<rparr>
   \<and> make_callback ''A'' (JObj 1) (JFun 2) [JNum 5]
     = Some (Callback (JObj 1) (JFun 2) [JStr ''A'', JNum 5])
   \<and> fst (loadPackage quiet 0 ''A'' (JObj 1) (JFun 2) [JNum 5]
        \<lparr>manifest = [(''A'', fresh\<lparr>source := Some [], isLoading := False, isLoaded := True,
                                    isReady := True, isExecuted := True\<rparr>)],
         trace = [Fetch ''/app/packages/pkg'' ''A'', Exec ''a()'']\<rparr>) = Return True
   \<and> invocations (trace (snd (loadPackage quiet 0 ''A'' (JObj 1) (JFun 2) [JNum 5]
        \<lparr>manifest = [(''A'', fresh\<lparr>source := Some [], isLoading := False, isLoaded := True,
                                    isReady := True, isExecuted := True\<rparr>)],
         trace = [Fetch ''/app/packages/pkg'' ''A'', Exec ''a()'']\<rparr>)))
     = [Callback (JObj 1) (JFun 2) [JStr ''A'', JNum 5]]
   \<and> executed (trace (snd (loadPackage quiet 0 ''A'' (JObj 1) (JFun 2) [JNum 5]
        \<lparr>manifest = [(''A'', fresh\<lparr>source := Some [], isLoading := False, isLoaded := True,
                                    isReady := True, isExecuted := True\<rparr>)],
         trace = [Fetch ''/app/packages/pkg'' ''A'', Exec ''a()'']\<rparr>)))
     = [''a()'']"
proof -
  let ?init = "\<lparr>manifest = [(''A'', fresh\<lparr>source := Some [(''other'', ''a()'')]\<rparr>)], trace = []\<rparr>"
  let ?p = "fresh\<lparr>source := Some [], isLoading := False, isLoaded := True,
                  isReady := True, isExecuted := True\<rparr>"
  let ?s = "\<lparr>manifest = [(''A'', ?p)],
             trace = [Fetch ''/app/packages/pkg'' ''A'', Exec ''a()'']\<rparr>"
  have cl: "clean ?init"
    by (simp add: clean_def lookup_def fresh_def)
  let ?mid = "\<lparr>manifest = [(''A'', fresh\<lparr>source := Some [(''other'', ''a()'')],
                                         isLoading := True\<rparr>)],
              trace = [Fetch ''/app/packages/pkg'' ''A'']\<rparr>"
  have step1: "run_op quiet (LoadPackage ''A'' Undefined Undefined []) ?init = ?mid"
    by (simp add: fuel_for_def source_size_def loadPackage_head_def isLoaded_fn_def
        registerCallbackForPackage_def make_callback_def loadJavaScript_def sc_urlForPackage_def
        Let_def lookup_def modify_def log_info_def log_warn_def warn_def emit_def
        quiet_def fresh_def)
  have step2: "run_op quiet (PackageDidLoad ''A'') ?mid = ?s"
    by (simp add: fuel_for_def source_size_def
        sc_packageDidLoad_def sc_dependenciesMetForPackage_def
        evaluate_source_def parts_for_def flag_set_def PACKAGE_MODE_NORMAL_def
        didExecute_head_def sc_invokeCallbacksForPackage_def
        Let_def lookup_def modify_def log_info_def log_warn_def warn_def emit_def
        quiet_def fresh_def AList.delete_eq)
  have run: "run_ops quiet [LoadPackage ''A'' Undefined Undefined [], PackageDidLoad ''A''] ?init
               = ?s"
    by (simp only: run_ops.simps step1 step2)
  have re: "reachable quiet ?s"
    unfolding reachable_def using cl run [symmetric] by blast
  have h: "lookup ?s ''A'' = Some ?p"
    by (simp add: lookup_def)
  have m: "make_callback ''A'' (JObj 1) (JFun 2) [JNum 5]
             = Some (Callback (JObj 1) (JFun 2) [JStr ''A'', JNum 5])"
    by (simp add: make_callback_def)
  have f: "typeOf ?p = T_HASH" "isLoaded ?p" "isReady ?p" "isExecuted ?p"
    by (simp_all add: fresh_def)
  from loadPackage_executed_invokes_once [OF re h f m, of 0] re m
  show ?thesis
    by (simp add: queued_def fresh_def)
qed

end
